theory Spec2Isabelle
  imports Main "HOL-Library.Sublist"
begin

section \<open>JavaScript values\<close>

text \<open>
  The payload threaded through a pipeline, the errors handed to a continuation and
  the values a task throws or returns are JavaScript values. The engine inspects
  them in three ways only: truthiness (\<open>if (err)\<close>), comparison with
  \<open>undefined\<close> (\<open>nextData !== undefined\<close>) and \<open>typeof\<close>.
  \<open>VError name message\<close> is an error object, \<open>VObject\<close> a plain data object
  (its fields are data, so it has no \<open>then\<close> method),
  \<open>VRejectedPromise e\<close> and \<open>VFulfilledPromise v\<close> are promise objects made outside
  the engine (what an \<open>async\<close> task function returns, or a promise handed in as a
  payload): a promise that rejects with \<open>e\<close>, and one that is resolved with \<open>v\<close>.
\<close>

datatype jsval =
    VUndefined
  | VNull
  | VBool bool
  | VNum int
  | VStr string
  | VError string string
  | VObject "(string \<times> jsval) list"
  | VRejectedPromise jsval
  | VFulfilledPromise jsval

fun truthy :: "jsval \<Rightarrow> bool" where
  "truthy VUndefined = False"
| "truthy VNull = False"
| "truthy (VBool b) = b"
| "truthy (VNum n) = (n \<noteq> 0)"
| "truthy (VStr s) = (s \<noteq> [])"
| "truthy (VError n m) = True"
| "truthy (VObject fs) = True"
| "truthy (VRejectedPromise e) = True"
| "truthy (VFulfilledPromise v) = True"

datatype jstype = TUndefined | TObject | TBoolean | TNumber | TString | TFunction

fun typeof_val :: "jsval \<Rightarrow> jstype" where
  "typeof_val VUndefined = TUndefined"
| "typeof_val VNull = TObject"
| "typeof_val (VBool b) = TBoolean"
| "typeof_val (VNum n) = TNumber"
| "typeof_val (VStr s) = TString"
| "typeof_val (VError n m) = TObject"
| "typeof_val (VObject fs) = TObject"
| "typeof_val (VRejectedPromise e) = TObject"
| "typeof_val (VFulfilledPromise v) = TObject"

section \<open>Tasks\<close>

text \<open>
  What a task does during its synchronous invocation, as far as the engine can see:
  it calls the continuation \<open>next(err, nextData)\<close> some number of times, in order,
  and then either returns a value or throws one. A missing argument of \<open>next\<close> is
  \<open>VUndefined\<close>, as in JavaScript. What a task does after its invocation has
  returned is, for the engine, a sequence of further calls of continuations
  (\<open>fire\<close> and \<open>execute_then\<close> below); an exception raised then never reaches the
  engine.
\<close>

datatype finish = Return jsval | Throw jsval

type_synonym script = "(jsval \<times> jsval) list \<times> finish"

datatype call_mode = WithNew | Plainly | ViaHandle

text \<open>
  The values that can be handed to \<open>add\<close>:
  \<^item> \<open>FuncVal src beh\<close>: a value with \<open>typeof\<close> \<open>'function'\<close>; \<open>src\<close> is its
    source text (\<open>Function.prototype.toString\<close>), \<open>beh mode data\<close> is what it does
    when invoked with \<open>new\<close> or plainly on \<open>data\<close>;
  \<^item> \<open>HandlerObj h\<close>: an object whose \<open>handle\<close> property is a function, \<open>h data\<close>
    being what \<open>handle(data, next)\<close> does;
  \<^item> \<open>Plain v\<close>: any other value (a primitive, \<open>null\<close>, or an object without a
    callable \<open>handle\<close>).
\<close>

datatype taskval =
    FuncVal string "call_mode \<Rightarrow> jsval \<Rightarrow> script"
  | HandlerObj "jsval \<Rightarrow> script"
  | Plain jsval

fun typeof_task :: "taskval \<Rightarrow> jstype" where
  "typeof_task (FuncVal src beh) = TFunction"
| "typeof_task (HandlerObj h) = TObject"
| "typeof_task (Plain v) = typeof_val v"

fun is_null :: "taskval \<Rightarrow> bool" where
  "is_null (Plain VNull) = True"
| "is_null t = False"

text \<open>
  The test \<open>/^class\s/\<close> on the source text of a function: the text starts with
  \<open>class\<close> followed by one white-space character (the white-space characters that
  fit in one byte).
\<close>

definition is_space :: "char \<Rightarrow> bool" where
  "is_space c = (c \<in> set [CHR 0x20, CHR 0x09, CHR 0x0A, CHR 0x0B, CHR 0x0C, CHR 0x0D, CHR 0xA0])"

definition class_source :: "string \<Rightarrow> bool" where
  "class_source src =
     (take 5 src = ''class'' \<and> (case drop 5 src of [] \<Rightarrow> False | c # cs \<Rightarrow> is_space c))"

section \<open>The task registry\<close>

record pipeline =
  tasks :: "taskval list"

definition new_pipeline :: pipeline where
  "new_pipeline = \<lparr>tasks = []\<rparr>"

text \<open>\<open>add\<close> throws a \<open>TypeError\<close> (\<open>Inl\<close>) or pushes the task and returns the pipeline.\<close>

definition add :: "taskval \<Rightarrow> pipeline \<Rightarrow> jsval + pipeline" where
  "add task this =
     (if \<not> (typeof_task task = TFunction \<or> (typeof_task task = TObject \<and> \<not> is_null task))
      then Inl (VError ''TypeError'' ''Task must be a function or class or object.'')
      else Inr (this\<lparr>tasks := tasks this @ [task]\<rparr>))"

definition use :: "taskval \<Rightarrow> pipeline \<Rightarrow> jsval + pipeline" where
  "use task this = add task this"

section \<open>The execution engine\<close>

text \<open>
  Promises. \<open>runner\<close> is an \<open>async\<close> function: the promise it returns is rejected
  when the body throws and follows the promise the body returns; when the body returns
  the payload, the promise comes to \<open>adopt\<close> of it. \<open>Now s\<close> is a promise already settled with \<open>s\<close>,
  \<open>Later p\<close> one that follows promise number \<open>p\<close> of the store.

  Each \<open>new Promise\<close> of \<open>runner\<close> is one entry of the store, together with what
  the closure \<open>next\<close> created beside it captures (\<open>index\<close> and \<open>data\<close>). A promise
  is settled or locked in by the first call of its \<open>resolve\<close> or \<open>reject\<close>; every
  later call is ignored.
\<close>

datatype settled = Fulfilled jsval | Rejected jsval

text \<open>
  What the promise of an \<open>async\<close> function comes to when the body returns \<open>v\<close>: a
  returned promise is adopted, any other value fulfils the promise as it is.
\<close>

fun adopt :: "jsval \<Rightarrow> settled" where
  "adopt (VRejectedPromise e) = Rejected e"
| "adopt (VFulfilledPromise v) = adopt v"
| "adopt VUndefined = Fulfilled VUndefined"
| "adopt VNull = Fulfilled VNull"
| "adopt (VBool b) = Fulfilled (VBool b)"
| "adopt (VNum n) = Fulfilled (VNum n)"
| "adopt (VStr s) = Fulfilled (VStr s)"
| "adopt (VError n m) = Fulfilled (VError n m)"
| "adopt (VObject fs) = Fulfilled (VObject fs)"

datatype presult = Now settled | Later nat

datatype pstate = Pending | Resolved presult

record activation =
  act_index :: nat
  act_data :: jsval
  act_state :: pstate

text \<open>
  The trace is not part of the program: it records, in order, each invocation of a
  task (index, how it was invoked, the payload passed) and each call of a
  continuation (index of its task, the payload its closure captured, the two
  arguments).
\<close>

datatype event = Invoked nat call_mode jsval | NextCalled nat jsval jsval jsval

record state =
  currentIndex :: int
  promises :: "activation list"
  trace :: "event list"

definition settle :: "nat \<Rightarrow> presult \<Rightarrow> state \<Rightarrow> state" where
  "settle p r \<sigma> =
     (if p < length (promises \<sigma>) \<and> act_state (promises \<sigma> ! p) = Pending
      then \<sigma>\<lparr>promises := (promises \<sigma>)[p := (promises \<sigma> ! p)\<lparr>act_state := Resolved r\<rparr>]\<rparr>
      else \<sigma>)"

definition resolve :: "nat \<Rightarrow> presult \<Rightarrow> state \<Rightarrow> state" where
  "resolve p r \<sigma> = settle p r \<sigma>"

definition reject :: "nat \<Rightarrow> jsval \<Rightarrow> state \<Rightarrow> state" where
  "reject p e \<sigma> = settle p (Now (Rejected e)) \<sigma>"

definition new_promise :: "nat \<Rightarrow> jsval \<Rightarrow> state \<Rightarrow> state" where
  "new_promise index data \<sigma> =
     \<sigma>\<lparr>promises := promises \<sigma> @ [\<lparr>act_index = index, act_data = data, act_state = Pending\<rparr>]\<rparr>"

definition log :: "event \<Rightarrow> state \<Rightarrow> state" where
  "log ev \<sigma> = \<sigma>\<lparr>trace := trace \<sigma> @ [ev]\<rparr>"

definition multiple_next_error :: jsval where
  "multiple_next_error = VError ''Error'' ''next() called multiple times in the same task.''"

definition no_handle_error :: jsval where
  "no_handle_error =
     VError ''TypeError'' ''Object tasks must implement a handle(data, next) method.''"

definition null_property_error :: jsval where
  "null_property_error = VError ''TypeError'' ''Cannot read properties of null''"

text \<open>
  \<open>runner\<close> and the closure \<open>next\<close> it creates. \<open>next_fn ts index data p\<close> is the
  closure created by \<open>runner(index, data)\<close> beside promise \<open>p\<close>. A task is invoked
  inside the executor of \<open>new Promise\<close>, under \<open>try\<close>: its continuation calls run
  nested, in order, and a value it throws goes to \<open>reject\<close>; the value it returns is
  dropped.
\<close>

function runner :: "taskval list \<Rightarrow> nat \<Rightarrow> jsval \<Rightarrow> state \<Rightarrow> presult \<times> state"
  and next_fn :: "taskval list \<Rightarrow> nat \<Rightarrow> jsval \<Rightarrow> nat \<Rightarrow> jsval \<times> jsval \<Rightarrow> state \<Rightarrow> state"
where
  "runner ts index data \<sigma> =
     (if int index = currentIndex \<sigma> then (Now (Rejected multiple_next_error), \<sigma>)
      else
        let \<sigma>1 = \<sigma>\<lparr>currentIndex := int index\<rparr> in
        if index \<ge> length ts then (Now (adopt data), \<sigma>1)
        else
          let task = ts ! index;
              p = length (promises \<sigma>1);
              \<sigma>2 = new_promise index data \<sigma>1;
              invoke = (\<lambda>mode (calls, fin).
                 let \<sigma>3 = fold (next_fn ts index data p) calls (log (Invoked index mode data) \<sigma>2)
                 in (case fin of Return v \<Rightarrow> \<sigma>3 | Throw e \<Rightarrow> reject p e \<sigma>3))
          in (Later p,
              (case task of
                 FuncVal src beh \<Rightarrow>
                   if class_source src then invoke WithNew (beh WithNew data)
                   else invoke Plainly (beh Plainly data)
               | HandlerObj h \<Rightarrow> invoke ViaHandle (h data)
               | Plain v \<Rightarrow>
                   if typeof_val v = TObject
                   then reject p (if v = VNull then null_property_error else no_handle_error) \<sigma>2
                   else \<sigma>2)))"
| "next_fn ts index data p (err, nextData) \<sigma> =
     (let \<sigma>0 = log (NextCalled index data err nextData) \<sigma> in
      if truthy err then reject p err \<sigma>0
      else
        let dataForNextTask = (if nextData \<noteq> VUndefined then nextData else data);
            (r, \<sigma>1) = runner ts (index + 1) dataForNextTask \<sigma>0
        in resolve p r \<sigma>1)"
  by pat_completeness auto
termination
  by (relation "measure (\<lambda>x. case x of
         Inl (ts, i, d, s) \<Rightarrow> 2 * (length ts + 1 - i)
       | Inr (ts, i, d, p, c, s) \<Rightarrow> 2 * (length ts - i) + 1)") auto

declare runner.simps [simp del] next_fn.simps [simp del]

definition initial_state :: state where
  "initial_state = \<lparr>currentIndex = -1, promises = [], trace = []\<rparr>"

definition execute :: "pipeline \<Rightarrow> jsval \<Rightarrow> presult \<times> state" where
  "execute this initialData = runner (tasks this) 0 initialData initial_state"

definition exec :: "pipeline \<Rightarrow> jsval \<Rightarrow> presult \<times> state" where
  "exec this initialData = execute this initialData"

section \<open>Outcomes and later continuation calls\<close>

text \<open>
  What a promise of the store has come to: \<open>None\<close> while it is pending. A promise
  locked in to another one has the fate of that one. \<open>runner\<close> only ever locks a
  promise in to one created after it (\<open>forward_chain_execute_then\<close> below), so
  the chain is followed towards larger numbers.
\<close>

function fate :: "activation list \<Rightarrow> nat \<Rightarrow> settled option" where
  "fate ps p =
     (if p < length ps then
        (case act_state (ps ! p) of
           Pending \<Rightarrow> None
         | Resolved (Now s) \<Rightarrow> Some s
         | Resolved (Later q) \<Rightarrow> (if p < q then fate ps q else None))
      else None)"
  by pat_completeness auto
termination
  by (relation "measure (\<lambda>(ps, p). length ps - p)") auto

declare fate.simps [simp del]

definition outcome :: "presult \<times> state \<Rightarrow> settled option" where
  "outcome rs = (case fst rs of Now s \<Rightarrow> Some s | Later p \<Rightarrow> fate (promises (snd rs)) p)"

text \<open>
  A task may keep its continuation and call it after its invocation has returned
  (from a timer or after an \<open>await\<close>). \<open>fire ts p call\<close> is such a call of the
  continuation created beside promise \<open>p\<close>; \<open>execute_then\<close> is \<open>execute\<close>
  followed by a list of such calls, in the order in which they happen.
\<close>

definition fire :: "taskval list \<Rightarrow> nat \<times> jsval \<times> jsval \<Rightarrow> state \<Rightarrow> state" where
  "fire ts pc \<sigma> =
     (let p = fst pc in
      if p < length (promises \<sigma>)
      then next_fn ts (act_index (promises \<sigma> ! p)) (act_data (promises \<sigma> ! p)) p (snd pc) \<sigma>
      else \<sigma>)"

definition execute_then :: "pipeline \<Rightarrow> jsval \<Rightarrow> (nat \<times> jsval \<times> jsval) list \<Rightarrow> presult \<times> state" where
  "execute_then this initialData later =
     (fst (execute this initialData),
      fold (fire (tasks this)) later (snd (execute this initialData)))"

section \<open>Derived notions\<close>

text \<open>How the engine invokes a registered task, if it does: the branches of \<open>runner\<close>.\<close>

fun dispatch :: "taskval \<Rightarrow> (call_mode \<times> (jsval \<Rightarrow> script)) option" where
  "dispatch (FuncVal src beh) =
     (if class_source src then Some (WithNew, beh WithNew) else Some (Plainly, beh Plainly))"
| "dispatch (HandlerObj h) = Some (ViaHandle, h)"
| "dispatch (Plain v) = None"

definition invoke ::
  "taskval list \<Rightarrow> nat \<Rightarrow> jsval \<Rightarrow> nat \<Rightarrow> call_mode \<Rightarrow> script \<Rightarrow> state \<Rightarrow> state" where
  "invoke ts index data p mode sc \<sigma> =
     (let \<sigma>3 = fold (next_fn ts index data p) (fst sc) (log (Invoked index mode data) \<sigma>)
      in (case snd sc of Return v \<Rightarrow> \<sigma>3 | Throw e \<Rightarrow> reject p e \<sigma>3))"

text \<open>The body of the \<open>try\<close> block of \<open>runner\<close>, for promise \<open>p\<close>.\<close>

definition attempt ::
  "taskval list \<Rightarrow> nat \<Rightarrow> jsval \<Rightarrow> nat \<Rightarrow> taskval \<Rightarrow> state \<Rightarrow> state" where
  "attempt ts index data p task \<sigma> =
     (case task of
        FuncVal src beh \<Rightarrow>
          if class_source src then invoke ts index data p WithNew (beh WithNew data) \<sigma>
          else invoke ts index data p Plainly (beh Plainly data) \<sigma>
      | HandlerObj h \<Rightarrow> invoke ts index data p ViaHandle (h data) \<sigma>
      | Plain v \<Rightarrow>
          if typeof_val v = TObject
          then reject p (if v = VNull then null_property_error else no_handle_error) \<sigma>
          else \<sigma>)"

text \<open>
  \<open>evolves S \<sigma> \<sigma>'\<close>: what every step of the engine respects. The store and the
  trace only grow, a closure never changes what it captured, a promise that is no
  longer pending stays as it is, and a pending one can only change if its number is
  in \<open>S\<close>.
\<close>

definition evolves :: "nat set \<Rightarrow> state \<Rightarrow> state \<Rightarrow> bool" where
  "evolves S \<sigma> \<sigma>' \<longleftrightarrow>
     length (promises \<sigma>) \<le> length (promises \<sigma>')
     \<and> prefix (trace \<sigma>) (trace \<sigma>')
     \<and> (\<forall>q<length (promises \<sigma>).
           act_index (promises \<sigma>' ! q) = act_index (promises \<sigma> ! q)
           \<and> act_data (promises \<sigma>' ! q) = act_data (promises \<sigma> ! q)
           \<and> (q \<in> S \<and> act_state (promises \<sigma> ! q) = Pending
                \<or> promises \<sigma>' ! q = promises \<sigma> ! q))"

text \<open>The script with its returned value forgotten, and a script transformer applied to
  every behaviour of a task.\<close>

fun forget_return :: "script \<Rightarrow> script" where
  "forget_return (calls, Return v) = (calls, Return VUndefined)"
| "forget_return (calls, Throw e) = (calls, Throw e)"

fun map_task :: "(script \<Rightarrow> script) \<Rightarrow> taskval \<Rightarrow> taskval" where
  "map_task f (FuncVal src beh) = FuncVal src (\<lambda>mode data. f (beh mode data))"
| "map_task f (HandlerObj h) = HandlerObj (\<lambda>data. f (h data))"
| "map_task f (Plain v) = Plain v"

text \<open>The script that calls \<open>next(e)\<close> and returns where the given one throws an error
  \<open>e\<close> that the continuation takes for one (a truthy value).\<close>

fun throw_to_next :: "script \<Rightarrow> script" where
  "throw_to_next (calls, Throw e) =
     (if truthy e then (calls @ [(e, VUndefined)], Return VUndefined) else (calls, Throw e))"
| "throw_to_next (calls, Return v) = (calls, Return v)"

text \<open>The state of the program proper: the cursor and the promises, without the trace.\<close>

definition core :: "state \<Rightarrow> int \<times> activation list" where
  "core \<sigma> = (currentIndex \<sigma>, promises \<sigma>)"

text \<open>The values that are promises.\<close>

fun is_promise :: "jsval \<Rightarrow> bool" where
  "is_promise (VRejectedPromise e) = True"
| "is_promise (VFulfilledPromise v) = True"
| "is_promise v = False"

text \<open>
  Two consecutive events of a trace fit together when the second one, if it is the
  invocation of a task, is the invocation of the successor of the task whose
  continuation was called just before, with a falsy error, on the value that call hands
  on: \<open>nextData\<close> unless it is \<open>undefined\<close>, the payload of the caller otherwise.
\<close>

fun handed_on :: "event \<Rightarrow> event \<Rightarrow> bool" where
  "handed_on (NextCalled i data err nd) (Invoked j mode x) =
     (j = Suc i \<and> \<not> truthy err \<and> x = (if nd \<noteq> VUndefined then nd else data))"
| "handed_on (Invoked i m d) (Invoked j mode x) = False"
| "handed_on ev (NextCalled i data err nd) = True"

fun threads :: "event list \<Rightarrow> bool" where
  "threads (a # b # evs) = (handed_on a b \<and> threads (b # evs))"
| "threads [a] = True"
| "threads [] = True"

text \<open>The order of events: which task began, which task's continuation fired.\<close>

datatype mark = Began nat | Fired nat

fun shape :: "event \<Rightarrow> mark" where
  "shape (Invoked i mode d) = Began i"
| "shape (NextCalled i d err nd) = Fired i"

text \<open>The order of events in which the tasks from \<open>k\<close> up to \<open>m\<close> run one after the other.\<close>

definition in_order :: "nat \<Rightarrow> nat \<Rightarrow> mark list" where
  "in_order k m = concat (map (\<lambda>j. [Began j, Fired j]) [k..<m])"

section \<open>Runs that keep to the protocol\<close>

text \<open>
  What an activation does during its invocation when it keeps to the protocol, that is
  when it calls its continuation at most once: it continues (one call, falsy error), it
  fails (one call, truthy error), it defers (no call, and it returns: the continuation
  is left for later), or it throws without having called the continuation. Whether the
  task returns or throws after its one call makes no difference to the engine.
\<close>

datatype act = Continue jsval jsval | Fail jsval jsval | Defer | ThrowNow jsval | Violate

fun classify :: "script \<Rightarrow> act" where
  "classify ([], Return v) = Defer"
| "classify ([], Throw e) = ThrowNow e"
| "classify ([(err, nd)], fin) = (if truthy err then Fail err nd else Continue err nd)"
| "classify (c # c' # cs, fin) = Violate"

text \<open>
  How such a run stands: it waits for the continuation of task \<open>m\<close> (invoked on \<open>d\<close>),
  all tasks have run and the last payload has been returned, the continuation of task
  \<open>m\<close> was called with an error, task \<open>m\<close> threw, or task \<open>m\<close> is an object that
  cannot be dispatched.
\<close>

datatype ending =
    Waiting nat jsval
  | Completed settled
  | Failed nat jsval
  | Threw nat jsval
  | Refused nat jsval

fun result_of :: "ending \<Rightarrow> settled option" where
  "result_of (Waiting m d) = None"
| "result_of (Completed s) = Some s"
| "result_of (Failed m e) = Some (Rejected e)"
| "result_of (Threw m e) = Some (Rejected e)"
| "result_of (Refused m e) = Some (Rejected e)"

fun prepend :: "event list \<Rightarrow> (event list \<times> ending) option \<Rightarrow> (event list \<times> ending) option" where
  "prepend pre None = None"
| "prepend pre (Some (evs, en)) = Some (pre @ evs, en)"

text \<open>
  The run of the tasks \<open>ts\<close>, the first of which has index \<open>i\<close>, on the payload \<open>d\<close>,
  as the protocol describes it: the tasks are invoked one after the other, each once,
  each on the value its predecessor handed on; a task that defers is continued by the
  next of the continuation calls made later (\<open>later\<close>, as for \<open>execute_then\<close>: the
  activation of task \<open>i\<close> is then number \<open>i\<close>). The run ends when a continuation is
  called with a truthy error, when a task throws without having called its
  continuation, at an object that cannot be dispatched, and behind the last task, where
  the payload is returned. The result is the sequence of events and how the run stands
  after the last of the later calls. It is \<open>None\<close> when the run leaves the protocol:
  a task calls its continuation a second time, or a continuation is called by a task
  that is not the one waited for, or after the run has ended. The tasks are taken on
  the payloads they receive in this run.
\<close>

fun sequential_run ::
  "taskval list \<Rightarrow> nat \<Rightarrow> jsval \<Rightarrow> (nat \<times> jsval \<times> jsval) list \<Rightarrow> (event list \<times> ending) option"
where
  "sequential_run [] i d later = (if later = [] then Some ([], Completed (adopt d)) else None)"
| "sequential_run (t # ts) i d later =
     (case dispatch t of
        None \<Rightarrow>
          (case t of
             Plain v \<Rightarrow>
               if typeof_val v = TObject \<and> later = []
               then Some ([], Refused i (if v = VNull then null_property_error else no_handle_error))
               else None
           | _ \<Rightarrow> None)
      | Some (mode, beh) \<Rightarrow>
          (case classify (beh d) of
             Violate \<Rightarrow> None
           | ThrowNow e \<Rightarrow> if later = [] then Some ([Invoked i mode d], Threw i e) else None
           | Fail err nd \<Rightarrow>
               if later = [] then Some ([Invoked i mode d, NextCalled i d err nd], Failed i err)
               else None
           | Continue err nd \<Rightarrow>
               prepend [Invoked i mode d, NextCalled i d err nd]
                 (sequential_run ts (Suc i) (if nd \<noteq> VUndefined then nd else d) later)
           | Defer \<Rightarrow>
               (case later of
                  [] \<Rightarrow> Some ([Invoked i mode d], Waiting i d)
                | pc # later' \<Rightarrow>
                    if fst pc \<noteq> i then None
                    else if truthy (fst (snd pc))
                    then (if later' = []
                          then Some ([Invoked i mode d, NextCalled i d (fst (snd pc)) (snd (snd pc))],
                                     Failed i (fst (snd pc)))
                          else None)
                    else prepend [Invoked i mode d, NextCalled i d (fst (snd pc)) (snd (snd pc))]
                           (sequential_run ts (Suc i)
                              (if snd (snd pc) \<noteq> VUndefined then snd (snd pc) else d) later'))))"

text \<open>
  The state of the engine that corresponds to a standing of such a run, for \<open>n\<close>
  tasks. \<open>position\<close> is the index the cursor is at, \<open>standing\<close> the state of the
  promise of the task at that index, \<open>link\<close> the state of the promise of an
  earlier task \<open>j\<close>: resolved with the promise of its successor, or after the last
  task with what \<open>runner\<close> returned past the end. \<open>arrived ts a \<sigma> en\<close> describes the cursor and
  the promises from \<open>a\<close> on.
\<close>

fun position :: "nat \<Rightarrow> ending \<Rightarrow> nat" where
  "position n (Waiting m d) = m"
| "position n (Completed s) = n"
| "position n (Failed m e) = m"
| "position n (Threw m e) = m"
| "position n (Refused m e) = m"

fun standing :: "ending \<Rightarrow> pstate" where
  "standing (Waiting m d) = Pending"
| "standing (Completed s) = Resolved (Now s)"
| "standing (Failed m e) = Resolved (Now (Rejected e))"
| "standing (Threw m e) = Resolved (Now (Rejected e))"
| "standing (Refused m e) = Resolved (Now (Rejected e))"

fun completed :: "ending \<Rightarrow> bool" where
  "completed (Completed s) = True"
| "completed en = False"

fun holds_payload :: "ending \<Rightarrow> jsval \<Rightarrow> bool" where
  "holds_payload (Waiting m d) x = (x = d)"
| "holds_payload en x = True"

definition link :: "nat \<Rightarrow> ending \<Rightarrow> nat \<Rightarrow> pstate" where
  "link n en j = (if Suc j < n then Resolved (Later (Suc j)) else standing en)"

definition arrived :: "taskval list \<Rightarrow> nat \<Rightarrow> state \<Rightarrow> ending \<Rightarrow> bool" where
  "arrived ts a \<sigma> en \<longleftrightarrow>
     position (length ts) en \<le> length ts
     \<and> (completed en \<longleftrightarrow> position (length ts) en = length ts)
     \<and> currentIndex \<sigma> = int (position (length ts) en)
     \<and> length (promises \<sigma>)
         = (if position (length ts) en < length ts then Suc (position (length ts) en) else length ts)
     \<and> (\<forall>j<length (promises \<sigma>). act_index (promises \<sigma> ! j) = j)
     \<and> (\<forall>j. a \<le> j \<and> j < position (length ts) en \<longrightarrow>
            act_state (promises \<sigma> ! j) = link (length ts) en j)
     \<and> (position (length ts) en < length ts \<longrightarrow>
            act_state (promises \<sigma> ! position (length ts) en) = standing en
            \<and> holds_payload en (act_data (promises \<sigma> ! position (length ts) en)))"

text \<open>The marks that close the trace of such a run, behind the tasks that ran in order.\<close>

fun closing :: "ending \<Rightarrow> mark list" where
  "closing (Waiting m d) = [Began m]"
| "closing (Completed s) = []"
| "closing (Failed m e) = [Began m, Fired m]"
| "closing (Threw m e) = [Began m]"
| "closing (Refused m e) = []"

text \<open>A promise is only ever locked in to a promise created after it.\<close>

definition forward_chain :: "activation list \<Rightarrow> bool" where
  "forward_chain ps \<longleftrightarrow>
     (\<forall>q<length ps. \<forall>r. act_state (ps ! q) = Resolved (Later r) \<longrightarrow> q < r \<and> r < length ps)"

section \<open>Example tasks\<close>

definition task_next_twice :: taskval where
  "task_next_twice = FuncVal ''(data, next) => { next(); next(); }''
     (\<lambda>mode data. ([(VUndefined, VUndefined), (VUndefined, VUndefined)], Return VUndefined))"

definition task_next_once :: taskval where
  "task_next_once = FuncVal ''(data, next) => { next(); }''
     (\<lambda>mode data. ([(VUndefined, VUndefined)], Return VUndefined))"



definition object_without_handle :: taskval where
  "object_without_handle = Plain (VObject [(''name'', VStr ''not a handler'')])"

definition task_continue_fail_continue :: taskval where
  "task_continue_fail_continue = FuncVal ''(data, next) => { next(); next(bad); next(); }''
     (\<lambda>mode data. ([(VUndefined, VUndefined), (VError ''Error'' ''bad'', VUndefined),
                        (VUndefined, VUndefined)], Return VUndefined))"

definition task_fail_bad :: taskval where
  "task_fail_bad = FuncVal ''(data, next) => { next(bad, undefined); }''
     (\<lambda>mode data. ([(VError ''Error'' ''bad'', VUndefined)], Return VUndefined))"

definition task_throw_bad :: taskval where
  "task_throw_bad = FuncVal ''(data, next) => { throw bad; }''
     (\<lambda>mode data. ([], Throw (VError ''Error'' ''bad'')))"

definition task_throw_zero :: taskval where
  "task_throw_zero = FuncVal ''(data, next) => { throw 0; }''
     (\<lambda>mode data. ([], Throw (VNum 0)))"

definition task_next_zero :: taskval where
  "task_next_zero = FuncVal ''(data, next) => { next(0); }''
     (\<lambda>mode data. ([(VNum 0, VUndefined)], Return VUndefined))"

definition task_set_two :: taskval where
  "task_set_two = FuncVal ''(data, next) => { next(null, { n: 2 }); }''
     (\<lambda>mode data. ([(VNull, VObject [(''n'', VNum 2)])], Return VUndefined))"

definition task_hand_on_rejection :: taskval where
  "task_hand_on_rejection = FuncVal ''(data, next) => { next(null, Promise.reject(boom)); }''
     (\<lambda>mode data. ([(VNull, VRejectedPromise (VError ''Error'' ''boom''))], Return VUndefined))"

definition task_next_one_then_two :: taskval where
  "task_next_one_then_two = FuncVal ''(data, next) => { next(null, 1); next(null, 2); }''
     (\<lambda>mode data. ([(VNull, VNum 1), (VNull, VNum 2)], Return VUndefined))"

definition task_fail_then_next_five :: taskval where
  "task_fail_then_next_five = FuncVal ''(data, next) => { next(bad); next(null, 5); }''
     (\<lambda>mode data. ([(VError ''Error'' ''bad'', VUndefined), (VNull, VNum 5)], Return VUndefined))"

definition task_deferring :: taskval where
  "task_deferring = FuncVal ''async (data, next) => { await delay(100); next(null, data); }''
     (\<lambda>mode data. ([], Return (VFulfilledPromise VUndefined)))"

section \<open>The registry\<close>

lemma add_Func: "add (FuncVal src beh) this = Inr (this\<lparr>tasks := tasks this @ [FuncVal src beh]\<rparr>)"
  by (simp add: add_def)

lemma add_HandlerObj: "add (HandlerObj h) this = Inr (this\<lparr>tasks := tasks this @ [HandlerObj h]\<rparr>)"
  by (simp add: add_def)

lemma is_null_Plain: "is_null (Plain v) = (v = VNull)"
  by (cases v) simp_all

lemma add_Plain:
  "add (Plain v) this =
     (if typeof_val v = TObject \<and> v \<noteq> VNull
      then Inr (this\<lparr>tasks := tasks this @ [Plain v]\<rparr>)
      else Inl (VError ''TypeError'' ''Task must be a function or class or object.''))"
  by (cases v) (simp_all add: add_def)

text \<open>
  C2 says that registration succeeds only for a callable or an object exposing a
  \<open>handle\<close> capability. An object without that capability is registered all the
  same.
\<close>

theorem add_object_without_handle_succeeds:
  "add object_without_handle new_pipeline = Inr \<lparr>tasks = [object_without_handle]\<rparr>"
  by (simp add: add_def object_without_handle_def new_pipeline_def)

text \<open>
  C2, amended: \<open>add\<close> appends the value and returns the pipeline exactly when the
  value is a function (class-style or not) or a non-null object, with or without a
  \<open>handle\<close> capability; every other value (a string, a number, a boolean,
  \<open>undefined\<close>, \<open>null\<close>) is refused at once with a \<open>TypeError\<close> and the registry is
  left as it was.
\<close>

theorem add_accepts_functions_and_objects:
  "add (FuncVal src beh) this = Inr (this\<lparr>tasks := tasks this @ [FuncVal src beh]\<rparr>)
   \<and> add (HandlerObj h) this = Inr (this\<lparr>tasks := tasks this @ [HandlerObj h]\<rparr>)
   \<and> add (Plain (VObject fs)) this = Inr (this\<lparr>tasks := tasks this @ [Plain (VObject fs)]\<rparr>)
   \<and> add (Plain (VError n m)) this = Inr (this\<lparr>tasks := tasks this @ [Plain (VError n m)]\<rparr>)
   \<and> add (Plain (VStr s)) this = Inl (VError ''TypeError'' ''Task must be a function or class or object.'')
   \<and> add (Plain (VNum k)) this = Inl (VError ''TypeError'' ''Task must be a function or class or object.'')
   \<and> add (Plain (VBool b)) this = Inl (VError ''TypeError'' ''Task must be a function or class or object.'')
   \<and> add (Plain VUndefined) this = Inl (VError ''TypeError'' ''Task must be a function or class or object.'')
   \<and> add (Plain VNull) this = Inl (VError ''TypeError'' ''Task must be a function or class or object.'')
   \<and> ((\<exists>this'. add task this = Inr this')
        \<longleftrightarrow> (typeof_task task = TFunction \<or> (typeof_task task = TObject \<and> \<not> is_null task)))"
  by (simp add: add_def)

theorem add_accepts_functions_and_objects_witness:
  "add (Plain (VStr ''not a task'')) new_pipeline
     = Inl (VError ''TypeError'' ''Task must be a function or class or object.'')
   \<and> add task_next_once new_pipeline = Inr \<lparr>tasks = [task_next_once]\<rparr>"
  using add_accepts_functions_and_objects
    [of "''(data, next) => { next(); }''"
        "\<lambda>mode data. ([(VUndefined, VUndefined)], Return VUndefined)"
        new_pipeline undefined "[]" "[]" "[]" "''not a task''" 0 False task_next_once]
  by (simp add: task_next_once_def new_pipeline_def)

text \<open>
  C9: \<open>use\<close> is \<open>add\<close> and \<open>exec\<close> is \<open>execute\<close>: the same check, the same
  registry after the call, the same result, for every argument and pipeline.
\<close>

theorem aliases_agree:
  "use task this = add task this \<and> exec this initialData = execute this initialData"
  by (simp add: use_def exec_def)

section \<open>Properties of the engine\<close>

lemma runner_unfold:
  "runner ts index data \<sigma> =
     (if int index = currentIndex \<sigma> then (Now (Rejected multiple_next_error), \<sigma>)
      else if length ts \<le> index then (Now (adopt data), \<sigma>\<lparr>currentIndex := int index\<rparr>)
      else (Later (length (promises \<sigma>)),
            attempt ts index data (length (promises \<sigma>)) (ts ! index)
              (new_promise index data (\<sigma>\<lparr>currentIndex := int index\<rparr>))))"
  by (simp add: runner.simps [of ts index data \<sigma>] attempt_def invoke_def Let_def
      case_prod_beta split: taskval.splits)

lemma next_fn_unfold:
  "next_fn ts index data p (err, nextData) \<sigma> =
     (if truthy err then reject p err (log (NextCalled index data err nextData) \<sigma>)
      else resolve p
        (fst (runner ts (index + 1) (if nextData \<noteq> VUndefined then nextData else data)
                (log (NextCalled index data err nextData) \<sigma>)))
        (snd (runner ts (index + 1) (if nextData \<noteq> VUndefined then nextData else data)
                (log (NextCalled index data err nextData) \<sigma>))))"
  by (simp add: next_fn.simps [of ts index data p err nextData \<sigma>] Let_def case_prod_beta)

lemma evolves_refl: "evolves S \<sigma> \<sigma>"
  by (simp add: evolves_def)

lemma evolves_trans: "evolves S \<sigma> \<sigma>' \<Longrightarrow> evolves S \<sigma>' \<sigma>'' \<Longrightarrow> evolves S \<sigma> \<sigma>''"
  unfolding evolves_def
  apply (intro conjI)
    apply simp
   apply (meson prefix_order.order_trans)
  apply (intro allI impI)
  subgoal for q
    apply (subgoal_tac "q < length (promises \<sigma>')")
     apply (elim conjE)
     apply (drule_tac x=q in spec)
     apply (drule_tac x=q in spec)
     apply auto
    done
  done

lemma evolves_mono: "evolves S \<sigma> \<sigma>' \<Longrightarrow> S \<subseteq> T \<Longrightarrow> evolves T \<sigma> \<sigma>'"
  unfolding evolves_def by blast

lemma evolves_fresh:
  "evolves (insert p S) \<sigma> \<sigma>' \<Longrightarrow> length (promises \<sigma>) \<le> p \<Longrightarrow> evolves S \<sigma> \<sigma>'"
  unfolding evolves_def by auto

lemma evolves_log: "evolves S \<sigma> (log ev \<sigma>)"
  by (simp add: evolves_def log_def)

lemma evolves_cursor: "evolves S \<sigma> (\<sigma>\<lparr>currentIndex := i\<rparr>)"
  by (simp add: evolves_def)

lemma evolves_new_promise: "evolves S \<sigma> (new_promise i d \<sigma>)"
  by (simp add: evolves_def new_promise_def nth_append)

lemma evolves_settle: "evolves {p} \<sigma> (settle p r \<sigma>)"
  by (auto simp: evolves_def settle_def nth_list_update)

lemma evolves_fold:
  assumes "\<And>c \<sigma>. evolves S \<sigma> (f c \<sigma>)"
  shows "evolves S \<sigma> (fold f cs \<sigma>)"
proof (induction cs arbitrary: \<sigma>)
  case Nil
  show ?case by (simp add: evolves_refl)
next
  case (Cons c cs)
  show ?case using assms [of \<sigma> c] Cons [of "f c \<sigma>"] by (auto intro: evolves_trans)
qed

lemma evolves_runner_next:
  shows "evolves {} \<sigma> (snd (runner ts index data \<sigma>))"
    and "evolves {p} \<sigma> (next_fn ts index data p c \<sigma>)"
proof (induction ts index data \<sigma> and ts index data p c \<sigma> rule: runner_next_fn.induct)
  case (1 ts index data \<sigma>)
  show ?case
  proof (cases "int index = currentIndex \<sigma> \<or> length ts \<le> index")
    case True
    then show ?thesis
      unfolding runner_unfold [of ts index data \<sigma>]
      by (auto simp: evolves_refl evolves_cursor)
  next
    case False
    let ?p = "length (promises \<sigma>)"
    let ?\<sigma>2 = "new_promise index data (\<sigma>\<lparr>currentIndex := int index\<rparr>)"
    have step: "evolves {?p} s (next_fn ts index data ?p c s)" for c s
      using "1.IH" [where xe = "[c]" and xg = c and xh = s, OF _ refl _ refl refl refl] False
      by simp
    have inv: "evolves {?p} ?\<sigma>2 (invoke ts index data ?p m sc ?\<sigma>2)" for m sc
    proof -
      let ?\<sigma>3 = "fold (next_fn ts index data ?p) (fst sc) (log (Invoked index m data) ?\<sigma>2)"
      have a: "evolves {?p} ?\<sigma>2 ?\<sigma>3"
        by (rule evolves_trans [OF evolves_log evolves_fold]) (rule step)
      have b: "evolves {?p} ?\<sigma>2 (reject ?p e ?\<sigma>3)" for e
        unfolding reject_def by (rule evolves_trans [OF a evolves_settle])
      show ?thesis
        unfolding invoke_def Let_def using a b by (cases "snd sc") simp_all
    qed
    have "evolves {?p} ?\<sigma>2 (attempt ts index data ?p (ts ! index) ?\<sigma>2)"
      unfolding attempt_def
      by (cases "ts ! index") (simp_all add: inv reject_def evolves_settle evolves_refl)
    then have "evolves {?p} \<sigma> (attempt ts index data ?p (ts ! index) ?\<sigma>2)"
      unfolding new_promise_def
      by (rule evolves_trans [OF evolves_trans [OF evolves_cursor evolves_new_promise [unfolded new_promise_def]]])
    then have "evolves {} \<sigma> (attempt ts index data ?p (ts ! index) ?\<sigma>2)"
      by (rule evolves_fresh) simp
    then show ?thesis using False
      unfolding runner_unfold [of ts index data \<sigma>] by simp
  qed
next
  case (2 ts index data p err nextData \<sigma>)
  let ?\<sigma>0 = "log (NextCalled index data err nextData) \<sigma>"
  show ?case
  proof (cases "truthy err")
    case True
    have "evolves {p} \<sigma> (reject p err ?\<sigma>0)"
      unfolding reject_def by (rule evolves_trans [OF evolves_log evolves_settle])
    then show ?thesis using True
      unfolding next_fn_unfold [of ts index data p err nextData \<sigma>] by simp
  next
    case False
    let ?d = "if nextData \<noteq> VUndefined then nextData else data"
    let ?rs = "runner ts (index + 1) ?d ?\<sigma>0"
    have "evolves {} ?\<sigma>0 (snd ?rs)"
      using "2.IH" [OF refl False refl] .
    then have "evolves {p} ?\<sigma>0 (snd ?rs)"
      by (rule evolves_mono) simp
    then have "evolves {p} \<sigma> (resolve p (fst ?rs) (snd ?rs))"
      unfolding resolve_def
      by (rule evolves_trans [OF evolves_trans [OF evolves_log] evolves_settle])
    then show ?thesis using False
      unfolding next_fn_unfold [of ts index data p err nextData \<sigma>] by simp
  qed
qed


lemma log_fields [simp]:
  "currentIndex (log ev \<sigma>) = currentIndex \<sigma>"
  "promises (log ev \<sigma>) = promises \<sigma>"
  "trace (log ev \<sigma>) = trace \<sigma> @ [ev]"
  by (simp_all add: log_def)

lemma new_promise_fields [simp]:
  "currentIndex (new_promise i d \<sigma>) = currentIndex \<sigma>"
  "promises (new_promise i d \<sigma>) =
     promises \<sigma> @ [\<lparr>act_index = i, act_data = d, act_state = Pending\<rparr>]"
  "trace (new_promise i d \<sigma>) = trace \<sigma>"
  by (simp_all add: new_promise_def)

lemma settle_fields [simp]:
  "currentIndex (settle p r \<sigma>) = currentIndex \<sigma>"
  "trace (settle p r \<sigma>) = trace \<sigma>"
  "length (promises (settle p r \<sigma>)) = length (promises \<sigma>)"
  by (simp_all add: settle_def)

lemma settle_pending:
  "p < length (promises \<sigma>) \<Longrightarrow> act_state (promises \<sigma> ! p) = Pending \<Longrightarrow>
   promises (settle p r \<sigma>) = (promises \<sigma>)[p := (promises \<sigma> ! p)\<lparr>act_state := Resolved r\<rparr>]"
  by (simp add: settle_def)

lemma evolves_next_fn: "evolves {p} \<sigma> (next_fn ts index data p c \<sigma>)"
  by (rule evolves_runner_next)

lemma evolves_runner: "evolves {} \<sigma> (snd (runner ts index data \<sigma>))"
  by (rule evolves_runner_next)

lemma evolves_invoke:
  "evolves {p} (log (Invoked index mode data) \<sigma>) (invoke ts index data p mode sc \<sigma>)"
proof -
  let ?\<sigma>3 = "fold (next_fn ts index data p) (fst sc) (log (Invoked index mode data) \<sigma>)"
  have a: "evolves {p} (log (Invoked index mode data) \<sigma>) ?\<sigma>3"
    by (rule evolves_fold) (rule evolves_next_fn)
  have b: "evolves {p} (log (Invoked index mode data) \<sigma>) (reject p e ?\<sigma>3)" for e
    unfolding reject_def by (rule evolves_trans [OF a evolves_settle])
  show ?thesis
    unfolding invoke_def Let_def using a b by (cases "snd sc") simp_all
qed

lemma invoke_trace:
  "prefix (trace \<sigma> @ [Invoked index mode data]) (trace (invoke ts index data p mode sc \<sigma>))"
  using evolves_invoke [of p index mode data \<sigma> ts sc] by (simp add: evolves_def)


lemma attempt_dispatch:
  "dispatch task = Some (mode, beh) \<Longrightarrow>
   attempt ts index data p task \<sigma> = invoke ts index data p mode (beh data) \<sigma>"
  by (cases task) (auto simp: attempt_def split: if_splits)

lemma runner_invokes:
  assumes "int index \<noteq> currentIndex \<sigma>" and "index < length ts"
    and "dispatch (ts ! index) = Some (mode, beh)"
  shows "runner ts index data \<sigma>
           = (Later (length (promises \<sigma>)),
              invoke ts index data (length (promises \<sigma>)) mode (beh data)
                (new_promise index data (\<sigma>\<lparr>currentIndex := int index\<rparr>)))"
  using assms unfolding runner_unfold [of ts index data \<sigma>]
  by (simp add: attempt_dispatch)

lemma runner_past_end:
  assumes "int index \<noteq> currentIndex \<sigma>" and "length ts \<le> index"
  shows "runner ts index data \<sigma> = (Now (adopt data), \<sigma>\<lparr>currentIndex := int index\<rparr>)"
  using assms unfolding runner_unfold [of ts index data \<sigma>] by simp


lemma runner_Later:
  "fst (runner ts k d \<sigma>) = Later q \<Longrightarrow> q = length (promises \<sigma>)"
  unfolding runner_unfold [of ts k d \<sigma>] by (simp split: if_splits)

lemma settle_resolved:
  "p < length (promises \<sigma>) \<Longrightarrow> act_state (promises \<sigma> ! p) \<noteq> Pending \<Longrightarrow> settle p r \<sigma> = \<sigma>"
  by (simp add: settle_def)

lemma settle_nth:
  "promises (settle p r \<sigma>) ! j =
     (if j = p \<and> p < length (promises \<sigma>) \<and> act_state (promises \<sigma> ! p) = Pending
      then (promises \<sigma> ! p)\<lparr>act_state := Resolved r\<rparr> else promises \<sigma> ! j)"
  by (simp add: settle_def)

lemma runner_old_promises:
  "j < length (promises \<sigma>) \<Longrightarrow> promises (snd (runner ts k d \<sigma>)) ! j = promises \<sigma> ! j"
  using evolves_runner [of \<sigma> ts k d] unfolding evolves_def by auto

lemma invoke_single:
  "invoke ts k d p mode ([c], fin) \<sigma>
     = (case fin of Return v \<Rightarrow> next_fn ts k d p c (log (Invoked k mode d) \<sigma>)
                  | Throw e \<Rightarrow> reject p e (next_fn ts k d p c (log (Invoked k mode d) \<sigma>)))"
  by (simp add: invoke_def Let_def)

section \<open>What a task returns\<close>

lemma invoke_forget_return:
  assumes "\<And>c s. next_fn ts' index data p c s = next_fn ts index data p c s"
  shows "invoke ts' index data p mode (forget_return sc) \<sigma> = invoke ts index data p mode sc \<sigma>"
proof -
  have f: "next_fn ts' index data p = next_fn ts index data p"
    using assms by (intro ext)
  obtain cs fin where sc: "sc = (cs, fin)" by (cases sc)
  show ?thesis unfolding sc invoke_def f by (cases fin) simp_all
qed

lemma returns_ignored:
  shows "runner (map (map_task forget_return) ts) index data \<sigma> = runner ts index data \<sigma>"
    and "next_fn (map (map_task forget_return) ts) index data p c \<sigma> = next_fn ts index data p c \<sigma>"
proof (induction ts index data \<sigma> and ts index data p c \<sigma> rule: runner_next_fn.induct)
  case (1 ts index data \<sigma>)
  let ?ts' = "map (map_task forget_return) ts"
  show ?case
  proof (cases "int index = currentIndex \<sigma> \<or> length ts \<le> index")
    case True
    then show ?thesis
      unfolding runner_unfold [of ts index data \<sigma>] runner_unfold [of ?ts' index data \<sigma>]
      by auto
  next
    case False
    let ?p = "length (promises \<sigma>)"
    have step: "next_fn ?ts' index data ?p c s = next_fn ts index data ?p c s" for c s
      using "1.IH" [where xe = "[c]" and xg = c and xh = s, OF _ refl _ refl refl refl] False
      by simp
    have "attempt ?ts' index data ?p (map_task forget_return (ts ! index)) s
            = attempt ts index data ?p (ts ! index) s" for s
      unfolding attempt_def
      by (cases "ts ! index") (simp_all add: invoke_forget_return [OF step])
    then show ?thesis using False
      unfolding runner_unfold [of ts index data \<sigma>] runner_unfold [of ?ts' index data \<sigma>]
      by simp
  qed
next
  case (2 ts index data p err nextData \<sigma>)
  show ?case
    unfolding next_fn_unfold [of ts index data p err nextData \<sigma>]
      next_fn_unfold [of "map (map_task forget_return) ts" index data p err nextData \<sigma>]
    using "2.IH" [OF refl _ refl] by simp
qed

lemma fire_returns_ignored:
  "fire (map (map_task forget_return) ts) pc \<sigma> = fire ts pc \<sigma>"
  by (simp add: fire_def returns_ignored Let_def)

section \<open>A throw and a continuation call with an error\<close>

lemma core_simps [simp]:
  "core (log ev \<sigma>) = core \<sigma>"
  by (simp add: core_def)

lemma core_eq_iff: "core \<sigma>' = core \<sigma> \<longleftrightarrow> currentIndex \<sigma>' = currentIndex \<sigma> \<and> promises \<sigma>' = promises \<sigma>"
  by (simp add: core_def)

lemma core_settle: "core \<sigma>' = core \<sigma> \<Longrightarrow> core (settle p r \<sigma>') = core (settle p r \<sigma>)"
  by (simp add: core_def settle_def)

lemma core_new_promise:
  "core \<sigma>' = core \<sigma> \<Longrightarrow> core (new_promise i d (\<sigma>'\<lparr>currentIndex := k\<rparr>)) = core (new_promise i d (\<sigma>\<lparr>currentIndex := k\<rparr>))"
  by (simp add: core_def new_promise_def)

lemma core_fold:
  assumes "\<And>c s s'. core s' = core s \<Longrightarrow> core (f' c s') = core (f c s)"
  shows "core s' = core s \<Longrightarrow> core (fold f' cs s') = core (fold f cs s)"
proof (induction cs arbitrary: s s')
  case Nil
  then show ?case by simp
next
  case (Cons c cs)
  show ?case using Cons.IH [OF assms [OF Cons.prems]] by simp
qed

lemma invoke_core:
  assumes step: "\<And>c s s'. core s' = core s \<Longrightarrow>
      core (next_fn ts' index data p c s') = core (next_fn ts index data p c s)"
    and "core s' = core s"
  shows "core (invoke ts' index data p mode sc s') = core (invoke ts index data p mode sc s)"
proof -
  have f: "core (fold (next_fn ts' index data p) (fst sc) (log (Invoked index mode data) s'))
      = core (fold (next_fn ts index data p) (fst sc) (log (Invoked index mode data) s))"
    by (rule core_fold [OF step]) (simp_all add: assms(2))
  show ?thesis
    unfolding invoke_def Let_def
    by (cases "snd sc") (simp_all add: reject_def f core_settle [OF f])
qed

lemma invoke_throw_to_next_core:
  assumes step: "\<And>c s s'. core s' = core s \<Longrightarrow>
      core (next_fn ts' index data p c s') = core (next_fn ts index data p c s)"
    and "core s' = core s"
  shows "core (invoke ts' index data p mode (throw_to_next sc) s') = core (invoke ts index data p mode sc s)"
proof -
  obtain cs fin where sc: "sc = (cs, fin)" by (cases sc)
  have f: "core (fold (next_fn ts' index data p) cs (log (Invoked index mode data) s'))
      = core (fold (next_fn ts index data p) cs (log (Invoked index mode data) s))"
    by (rule core_fold [OF step]) (simp_all add: assms(2))
  show ?thesis
  proof (cases fin)
    case (Return v)
    then show ?thesis using invoke_core [OF step assms(2), of mode sc] by (simp add: sc)
  next
    case (Throw e)
    show ?thesis
    proof (cases "truthy e")
      case False
      then show ?thesis using invoke_core [OF step assms(2), of mode sc] Throw by (simp add: sc)
    next
      case True
    have "core (log (NextCalled index data e VUndefined) (fold (next_fn ts' index data p) cs (log (Invoked index mode data) s')))
      = core (fold (next_fn ts index data p) cs (log (Invoked index mode data) s))"
      using f by simp
    note core_settle [OF this]
    with True show ?thesis
      unfolding sc Throw invoke_def Let_def
      by (simp add: next_fn_unfold reject_def)
    qed
  qed
qed

lemma throw_as_next_sim:
  assumes "length ts' = length ts"
    and "\<forall>i<length ts. ts' ! i = ts ! i \<or> ts' ! i = map_task throw_to_next (ts ! i)"
  shows "core \<sigma>' = core \<sigma> \<Longrightarrow>
           fst (runner ts' index data \<sigma>') = fst (runner ts index data \<sigma>)
           \<and> core (snd (runner ts' index data \<sigma>')) = core (snd (runner ts index data \<sigma>))"
    and "core \<sigma>' = core \<sigma> \<Longrightarrow>
           core (next_fn ts' index data p c \<sigma>') = core (next_fn ts index data p c \<sigma>)"
  using assms
proof (induction ts index data \<sigma> and ts index data p c \<sigma> arbitrary: \<sigma>' and \<sigma>'
    rule: runner_next_fn.induct)
  case (1 ts index data \<sigma>)
  have ci: "currentIndex \<sigma>' = currentIndex \<sigma>" and pr: "promises \<sigma>' = promises \<sigma>"
    using "1.prems"(1) by (simp_all add: core_eq_iff)
  show ?case
  proof (cases "int index = currentIndex \<sigma> \<or> length ts \<le> index")
    case True
    then show ?thesis
      unfolding runner_unfold [of ts index data \<sigma>] runner_unfold [of ts' index data \<sigma>']
      using ci pr "1.prems"(2) by (auto simp: core_def)
  next
    case False
    let ?p = "length (promises \<sigma>)"
    let ?\<sigma>2 = "new_promise index data (\<sigma>\<lparr>currentIndex := int index\<rparr>)"
    let ?\<sigma>2' = "new_promise index data (\<sigma>'\<lparr>currentIndex := int index\<rparr>)"
    have g: "int index \<noteq> currentIndex \<sigma>" and l: "\<not> length ts \<le> index"
      using False by simp_all
    have step: "core s' = core s \<Longrightarrow>
        core (next_fn ts' index data ?p c s') = core (next_fn ts index data ?p c s)" for c s s'
      using "1.IH" [where xe = "[c]" and xg = c and xh = s and \<sigma>' = s',
          OF g refl l refl refl refl _ _ "1.prems"(2,3)]
      by simp
    have c2: "core ?\<sigma>2' = core ?\<sigma>2"
      using "1.prems"(1) by (rule core_new_promise)
    have rel: "ts' ! index = ts ! index \<or> ts' ! index = map_task throw_to_next (ts ! index)"
      using "1.prems"(3) False by simp
    have "core (attempt ts' index data ?p (ts' ! index) ?\<sigma>2')
            = core (attempt ts index data ?p (ts ! index) ?\<sigma>2)"
      using rel
    proof
      assume "ts' ! index = ts ! index"
      then show ?thesis
        unfolding attempt_def
        by (cases "ts ! index")
          (simp_all add: invoke_core [OF step c2] reject_def core_settle [OF c2] c2)
    next
      assume a: "ts' ! index = map_task throw_to_next (ts ! index)"
      show ?thesis
      proof (cases "ts ! index")
        case (FuncVal src beh)
        then show ?thesis
          using a unfolding attempt_def
          by (simp add: invoke_throw_to_next_core [OF step c2])
      next
        case (HandlerObj h)
        then show ?thesis
          using a unfolding attempt_def
          by (simp add: invoke_throw_to_next_core [OF step c2])
      next
        case (Plain v)
        then show ?thesis
          using a unfolding attempt_def
          by (simp add: reject_def core_settle [OF c2] c2)
      qed
    qed
    then show ?thesis using False ci pr "1.prems"(2)
      unfolding runner_unfold [of ts index data \<sigma>] runner_unfold [of ts' index data \<sigma>']
      by simp
  qed
next
  case (2 ts index data p err nextData \<sigma>)
  let ?\<sigma>0 = "log (NextCalled index data err nextData) \<sigma>"
  let ?\<sigma>0' = "log (NextCalled index data err nextData) \<sigma>'"
  have c0: "core ?\<sigma>0' = core ?\<sigma>0" using "2.prems"(1) by simp
  show ?case
  proof (cases "truthy err")
    case True
    then show ?thesis
      unfolding next_fn_unfold [of ts index data p err nextData \<sigma>]
        next_fn_unfold [of ts' index data p err nextData \<sigma>']
      by (simp add: reject_def core_settle [OF c0])
  next
    case False
    define d where "d = (if nextData \<noteq> VUndefined then nextData else data)"
    have "fst (runner ts' (index + 1) d ?\<sigma>0') = fst (runner ts (index + 1) d ?\<sigma>0)
        \<and> core (snd (runner ts' (index + 1) d ?\<sigma>0')) = core (snd (runner ts (index + 1) d ?\<sigma>0))"
      unfolding d_def using "2.IH" [OF refl False refl c0 "2.prems"(2,3)] .
    then have e1: "fst (runner ts' (index + 1) d ?\<sigma>0') = fst (runner ts (index + 1) d ?\<sigma>0)"
      and e2: "core (snd (runner ts' (index + 1) d ?\<sigma>0')) = core (snd (runner ts (index + 1) d ?\<sigma>0))"
      by simp_all
    have "core (settle p (fst (runner ts (index + 1) d ?\<sigma>0)) (snd (runner ts' (index + 1) d ?\<sigma>0')))
        = core (settle p (fst (runner ts (index + 1) d ?\<sigma>0)) (snd (runner ts (index + 1) d ?\<sigma>0)))"
      by (rule core_settle [OF e2])
    then show ?thesis using False e1
      unfolding next_fn_unfold [of ts index data p err nextData \<sigma>]
        next_fn_unfold [of ts' index data p err nextData \<sigma>'] d_def [symmetric]
      by (simp add: resolve_def)
  qed
qed

lemma core_fire:
  assumes "length ts' = length ts"
    and "\<forall>i<length ts. ts' ! i = ts ! i \<or> ts' ! i = map_task throw_to_next (ts ! i)"
    and "core \<sigma>' = core \<sigma>"
  shows "core (fire ts' pc \<sigma>') = core (fire ts pc \<sigma>)"
proof -
  have pr: "promises \<sigma>' = promises \<sigma>" using assms(3) by (simp add: core_eq_iff)
  show ?thesis
    unfolding fire_def Let_def pr
    using throw_as_next_sim(2) [OF assms] assms(3) by (cases "snd pc") auto
qed

lemma outcome_core:
  "core \<sigma>' = core \<sigma> \<Longrightarrow> outcome (r, \<sigma>') = outcome (r, \<sigma>)"
  by (cases r) (simp_all add: outcome_def core_eq_iff)

section \<open>Settled promises stay settled\<close>

lemma fate_mono:
  "fate ps p = Some s \<Longrightarrow> length ps \<le> length ps' \<Longrightarrow>
   \<forall>q<length ps. act_state (ps ! q) \<noteq> Pending \<longrightarrow> ps' ! q = ps ! q \<Longrightarrow>
   fate ps' p = Some s"
proof (induction ps p rule: fate.induct)
  case (1 ps p)
  have lt: "p < length ps"
    using "1.prems"(1) unfolding fate.simps [of ps p] by (simp split: if_splits)
  show ?case
  proof (cases "act_state (ps ! p)")
    case Pending
    then show ?thesis using "1.prems"(1) lt unfolding fate.simps [of ps p] by simp
  next
    case (Resolved r)
    have same: "ps' ! p = ps ! p"
      using "1.prems"(3) lt Resolved by simp
    have lt': "p < length ps'"
      using "1.prems"(2) lt by simp
    show ?thesis
    proof (cases r)
      case (Now s')
      then show ?thesis
        using "1.prems"(1) lt lt' Resolved same
        unfolding fate.simps [of ps p] fate.simps [of ps' p] by simp
    next
      case (Later q)
      then have pq: "p < q" and fq: "fate ps q = Some s"
        using "1.prems"(1) lt Resolved unfolding fate.simps [of ps p]
        by (simp_all split: if_splits)
      have "fate ps' q = Some s"
        using "1.IH" [OF lt Resolved Later pq fq "1.prems"(2,3)] .
      then show ?thesis
        using lt' Resolved Later same pq unfolding fate.simps [of ps' p] by simp
    qed
  qed
qed

lemma fate_stable:
  assumes "evolves S \<sigma> \<sigma>'" and "fate (promises \<sigma>) p = Some s"
  shows "fate (promises \<sigma>') p = Some s"
  using assms(1) by (intro fate_mono [OF assms(2)]) (auto simp: evolves_def)

lemma evolves_fire: "evolves {fst pc} \<sigma> (fire ts pc \<sigma>)"
  by (simp add: fire_def Let_def evolves_next_fn evolves_refl)

lemma fate_fold_fire:
  "fate (promises \<sigma>) p = Some s \<Longrightarrow> fate (promises (fold (fire ts) later \<sigma>)) p = Some s"
proof (induction later arbitrary: \<sigma>)
  case Nil
  then show ?case by simp
next
  case (Cons pc later)
  have "fate (promises (fire ts pc \<sigma>)) p = Some s"
    using fate_stable [OF evolves_fire Cons.prems] .
  then show ?case using Cons.IH by simp
qed

lemma outcome_stable:
  "outcome (execute this d) = Some s \<Longrightarrow> outcome (execute_then this d later) = Some s"
  by (cases "fst (execute this d)") (simp_all add: outcome_def execute_then_def fate_fold_fire)

lemma fate_settle_now:
  assumes "p < length (promises \<sigma>)" and "act_state (promises \<sigma> ! p) = Pending"
  shows "fate (promises (settle p (Now s) \<sigma>)) p = Some s"
  using assms by (simp add: settle_def fate.simps [of _ p])

lemma fate_settle_later:
  assumes "p < length (promises \<sigma>)" and "act_state (promises \<sigma> ! p) = Pending"
    and "p < q" and "fate (promises \<sigma>) q = Some s"
  shows "fate (promises (settle p (Later q) \<sigma>)) p = Some s"
proof -
  have "fate (promises (settle p (Later q) \<sigma>)) q = Some s"
    by (rule fate_stable [OF evolves_settle assms(4)])
  then show ?thesis
    using assms(1-3) by (simp add: settle_def fate.simps [of _ p])
qed

section \<open>Promise chains point forward\<close>

lemma forward_chainD:
  "forward_chain ps \<Longrightarrow> q < length ps \<Longrightarrow> act_state (ps ! q) = Resolved (Later r) \<Longrightarrow>
   q < r \<and> r < length ps"
  unfolding forward_chain_def by blast

lemma forward_settle:
  assumes "forward_chain (promises \<sigma>)"
    and "\<And>q. r = Later q \<Longrightarrow> p < q \<and> q < length (promises \<sigma>)"
  shows "forward_chain (promises (settle p r \<sigma>))"
  unfolding forward_chain_def
proof (intro allI impI)
  fix q x
  assume q: "q < length (promises (settle p r \<sigma>))"
    and st: "act_state (promises (settle p r \<sigma>) ! q) = Resolved (Later x)"
  have ql: "q < length (promises \<sigma>)" using q by simp
  show "q < x \<and> x < length (promises (settle p r \<sigma>))"
  proof (cases "q = p \<and> act_state (promises \<sigma> ! p) = Pending")
    case True
    then have qp: "q = p" and pe: "act_state (promises \<sigma> ! p) = Pending" by simp_all
    have "promises (settle p r \<sigma>) ! p = (promises \<sigma> ! p)\<lparr>act_state := Resolved r\<rparr>"
      using ql pe unfolding qp by (simp add: settle_nth)
    then have "r = Later x" using st unfolding qp by simp
    from assms(2) [OF this] show ?thesis unfolding qp by simp
  next
    case False
    then have "promises (settle p r \<sigma>) ! q = promises \<sigma> ! q"
      by (simp add: settle_nth)
    then have "act_state (promises \<sigma> ! q) = Resolved (Later x)"
      using st by simp
    from forward_chainD [OF assms(1) ql this] show ?thesis by simp
  qed
qed

lemma forward_new_promise:
  assumes "forward_chain (promises \<sigma>)"
  shows "forward_chain (promises (new_promise i d \<sigma>))"
  unfolding forward_chain_def
proof (intro allI impI)
  fix q x
  assume q: "q < length (promises (new_promise i d \<sigma>))"
    and st: "act_state (promises (new_promise i d \<sigma>) ! q) = Resolved (Later x)"
  have "q \<noteq> length (promises \<sigma>)"
    using st by (auto simp: nth_append)
  then have ql: "q < length (promises \<sigma>)" using q by simp
  then have "act_state (promises \<sigma> ! q) = Resolved (Later x)"
    using st by (simp add: nth_append)
  from forward_chainD [OF assms ql this] show "q < x \<and> x < length (promises (new_promise i d \<sigma>))"
    by simp
qed

lemma evolves_length: "evolves S \<sigma> \<sigma>' \<Longrightarrow> length (promises \<sigma>) \<le> length (promises \<sigma>')"
  by (simp add: evolves_def)

lemma forward_fold:
  assumes "\<And>c s. forward_chain (promises s) \<Longrightarrow> p < length (promises s) \<Longrightarrow>
      forward_chain (promises (f c s))"
    and "\<And>c s. length (promises s) \<le> length (promises (f c s))"
  shows "forward_chain (promises s) \<Longrightarrow> p < length (promises s) \<Longrightarrow>
      forward_chain (promises (fold f cs s)) \<and> p < length (promises (fold f cs s))"
proof (induction cs arbitrary: s)
  case Nil
  then show ?case by simp
next
  case (Cons c cs)
  have "forward_chain (promises (f c s))" using assms(1) Cons.prems by blast
  moreover have "p < length (promises (f c s))"
    using assms(2) [of s c] Cons.prems(2) by simp
  ultimately show ?case using Cons.IH by simp
qed

lemma runner_Later_bound:
  assumes "fst (runner ts k d \<sigma>) = Later q"
  shows "q = length (promises \<sigma>) \<and> q < length (promises (snd (runner ts k d \<sigma>)))"
proof -
  have q: "q = length (promises \<sigma>)" using assms by (rule runner_Later)
  have g: "int k \<noteq> currentIndex \<sigma>" and l: "\<not> length ts \<le> k"
    using assms unfolding runner_unfold [of ts k d \<sigma>] by (auto split: if_splits)
  let ?\<sigma>2 = "new_promise k d (\<sigma>\<lparr>currentIndex := int k\<rparr>)"
  have "snd (runner ts k d \<sigma>) = attempt ts k d (length (promises \<sigma>)) (ts ! k) ?\<sigma>2"
    using g l unfolding runner_unfold [of ts k d \<sigma>] by simp
  moreover have "evolves {} ?\<sigma>2 (snd (runner ts (Suc k) d ?\<sigma>2))"
    by (rule evolves_runner)
  have "length (promises ?\<sigma>2) \<le> length (promises (attempt ts k d (length (promises \<sigma>)) (ts ! k) ?\<sigma>2))"
  proof (cases "ts ! k")
    case (FuncVal src beh)
    then show ?thesis
      using evolves_length [OF evolves_invoke [of "length (promises \<sigma>)" k _ d ?\<sigma>2 ts]]
      by (simp add: attempt_def)
  next
    case (HandlerObj h)
    then show ?thesis
      using evolves_length [OF evolves_invoke [of "length (promises \<sigma>)" k _ d ?\<sigma>2 ts]]
      by (simp add: attempt_def)
  next
    case (Plain v)
    then show ?thesis by (simp add: attempt_def reject_def)
  qed
  ultimately show ?thesis using q by simp
qed

lemma forward_runner_next:
  shows "forward_chain (promises \<sigma>) \<Longrightarrow> forward_chain (promises (snd (runner ts index data \<sigma>)))"
    and "forward_chain (promises \<sigma>) \<Longrightarrow> p < length (promises \<sigma>) \<Longrightarrow>
         forward_chain (promises (next_fn ts index data p c \<sigma>))"
proof (induction ts index data \<sigma> and ts index data p c \<sigma> rule: runner_next_fn.induct)
  case (1 ts index data \<sigma>)
  show ?case
  proof (cases "int index = currentIndex \<sigma> \<or> length ts \<le> index")
    case True
    then show ?thesis
      unfolding runner_unfold [of ts index data \<sigma>] using "1.prems" by auto
  next
    case False
    then have g: "int index \<noteq> currentIndex \<sigma>" and l: "\<not> length ts \<le> index" by simp_all
    let ?p = "length (promises \<sigma>)"
    let ?\<sigma>2 = "new_promise index data (\<sigma>\<lparr>currentIndex := int index\<rparr>)"
    have step: "forward_chain (promises s) \<Longrightarrow> ?p < length (promises s) \<Longrightarrow>
        forward_chain (promises (next_fn ts index data ?p c s))" for c s
      using "1.IH" [where xe = "[c]" and xg = c and xh = s, OF g refl l refl refl refl] by simp
    have mono: "length (promises s) \<le> length (promises (next_fn ts index data ?p c s))" for c s
      by (rule evolves_length [OF evolves_next_fn])
    have f2: "forward_chain (promises ?\<sigma>2)"
      using forward_new_promise [of "\<sigma>\<lparr>currentIndex := int index\<rparr>"] "1.prems" by simp
    have inv: "forward_chain (promises (invoke ts index data ?p m sc ?\<sigma>2))" for m sc
    proof -
      let ?s = "fold (next_fn ts index data ?p) (fst sc) (log (Invoked index m data) ?\<sigma>2)"
      have a: "forward_chain (promises ?s) \<and> ?p < length (promises ?s)"
        by (rule forward_fold [of ?p "next_fn ts index data ?p", OF step mono]) (use f2 in simp_all)
      then have "forward_chain (promises (reject ?p e ?s))" for e
        unfolding reject_def by (intro forward_settle) simp_all
      then show ?thesis
        using a unfolding invoke_def Let_def by (cases "snd sc") simp_all
    qed
    have "forward_chain (promises (attempt ts index data ?p (ts ! index) ?\<sigma>2))"
    proof (cases "ts ! index")
      case (Plain v)
      have "forward_chain (promises (reject ?p e ?\<sigma>2))" for e
        unfolding reject_def by (intro forward_settle f2) simp
      then show ?thesis using Plain f2 by (simp add: attempt_def)
    qed (simp_all add: attempt_def inv)
    then show ?thesis using g l unfolding runner_unfold [of ts index data \<sigma>] by simp
  qed
next
  case (2 ts index data p err nextData \<sigma>)
  let ?\<sigma>0 = "log (NextCalled index data err nextData) \<sigma>"
  have f0: "forward_chain (promises ?\<sigma>0)" using "2.prems"(1) by simp
  show ?case
  proof (cases "truthy err")
    case True
    have "forward_chain (promises (reject p err ?\<sigma>0))"
      unfolding reject_def by (intro forward_settle f0) simp
    then show ?thesis using True
      unfolding next_fn_unfold [of ts index data p err nextData \<sigma>] by simp
  next
    case False
    define d where "d = (if nextData \<noteq> VUndefined then nextData else data)"
    define rs where "rs = runner ts (index + 1) d ?\<sigma>0"
    have f1: "forward_chain (promises (snd rs))"
      unfolding rs_def d_def using "2.IH" [OF refl False refl f0] .
    have "forward_chain (promises (settle p (fst rs) (snd rs)))"
    proof (rule forward_settle [OF f1])
      fix q assume "fst rs = Later q"
      then have "q = length (promises ?\<sigma>0) \<and> q < length (promises (snd rs))"
        unfolding rs_def by (rule runner_Later_bound)
      then show "p < q \<and> q < length (promises (snd rs))"
        using "2.prems"(2) by simp
    qed
    then show ?thesis using False
      unfolding next_fn_unfold [of ts index data p err nextData \<sigma>] resolve_def rs_def d_def
      by simp
  qed
qed

lemma forward_chain_execute_then:
  "forward_chain (promises (snd (execute_then this d later)))"
proof -
  have a: "forward_chain (promises s) \<Longrightarrow> forward_chain (promises (fold (fire (tasks this)) later s))" for s
  proof (induction later arbitrary: s)
    case Nil
    then show ?case by simp
  next
    case (Cons pc later)
    have "forward_chain (promises (fire (tasks this) pc s))"
      using Cons.prems forward_runner_next(2) [of s "fst pc" "tasks this"]
      by (simp add: fire_def Let_def)
    then show ?case using Cons.IH by simp
  qed
  have "forward_chain (promises (snd (execute this d)))"
    unfolding execute_def
    by (rule forward_runner_next(1)) (simp add: initial_state_def forward_chain_def)
  then show ?thesis
    unfolding execute_then_def using a by simp
qed

section \<open>Every task receives what its predecessor handed on\<close>

lemma handed_on_mode: "handed_on a (Invoked j m x) = handed_on a (Invoked j m' x)"
  by (cases a) simp_all

lemma threads_snoc:
  "threads (evs @ [b]) = (threads evs \<and> (evs = [] \<or> handed_on (last evs) b))"
  by (induction evs rule: threads.induct) auto

lemma threads_fold:
  assumes "\<And>c s. threads (trace s) \<Longrightarrow> threads (trace (f c s))"
  shows "threads (trace s) \<Longrightarrow> threads (trace (fold f cs s))"
proof (induction cs arbitrary: s)
  case Nil
  then show ?case by simp
next
  case (Cons c cs)
  show ?case using Cons.IH [OF assms [OF Cons.prems]] by simp
qed

lemma threads_runner_next:
  shows "threads (trace \<sigma>) \<Longrightarrow>
         trace \<sigma> = [] \<or> handed_on (last (trace \<sigma>)) (Invoked index Plainly data) \<Longrightarrow>
         threads (trace (snd (runner ts index data \<sigma>)))"
    and "threads (trace \<sigma>) \<Longrightarrow> threads (trace (next_fn ts index data p c \<sigma>))"
proof (induction ts index data \<sigma> and ts index data p c \<sigma> rule: runner_next_fn.induct)
  case (1 ts index data \<sigma>)
  show ?case
  proof (cases "int index = currentIndex \<sigma> \<or> length ts \<le> index")
    case True
    then show ?thesis
      unfolding runner_unfold [of ts index data \<sigma>] using "1.prems" by auto
  next
    case False
    then have g: "int index \<noteq> currentIndex \<sigma>" and l: "\<not> length ts \<le> index" by simp_all
    let ?p = "length (promises \<sigma>)"
    let ?\<sigma>2 = "new_promise index data (\<sigma>\<lparr>currentIndex := int index\<rparr>)"
    have step: "threads (trace s) \<Longrightarrow> threads (trace (next_fn ts index data ?p c s))" for c s
      using "1.IH" [where xe = "[c]" and xg = c and xh = s, OF g refl l refl refl refl] by simp
    have inv: "threads (trace (invoke ts index data ?p m sc ?\<sigma>2))" for m sc
    proof -
      have l: "threads (trace (log (Invoked index m data) ?\<sigma>2))"
        using "1.prems" handed_on_mode [of _ index m data Plainly]
        by (auto simp: threads_snoc)
      have "threads (trace (fold (next_fn ts index data ?p) (fst sc) (log (Invoked index m data) ?\<sigma>2)))"
        using threads_fold [of "next_fn ts index data ?p", OF step l] .
      then show ?thesis
        unfolding invoke_def Let_def by (cases "snd sc") (simp_all add: reject_def)
    qed
    have "threads (trace (attempt ts index data ?p (ts ! index) ?\<sigma>2))"
      using "1.prems"(1)
      by (cases "ts ! index") (simp_all add: attempt_def inv reject_def)
    then show ?thesis using g l unfolding runner_unfold [of ts index data \<sigma>] by simp
  qed
next
  case (2 ts index data p err nextData \<sigma>)
  let ?\<sigma>0 = "log (NextCalled index data err nextData) \<sigma>"
  have t0: "threads (trace ?\<sigma>0)" using "2.prems" by (simp add: threads_snoc)
  show ?case
  proof (cases "truthy err")
    case True
    then show ?thesis
      unfolding next_fn_unfold [of ts index data p err nextData \<sigma>]
      using t0 by (simp add: reject_def)
  next
    case False
    have "threads (trace (snd (runner ts (index + 1)
        (if nextData \<noteq> VUndefined then nextData else data) ?\<sigma>0)))"
      by (rule "2.IH" [OF refl False refl t0]) (use False in simp)
    then show ?thesis using False
      unfolding next_fn_unfold [of ts index data p err nextData \<sigma>]
      by (simp add: resolve_def)
  qed
qed

lemma threads_execute_then: "threads (trace (snd (execute_then this d later)))"
proof -
  have f: "threads (trace s) \<Longrightarrow> threads (trace (fire (tasks this) c s))" for c s
    by (simp add: fire_def Let_def threads_runner_next(2))
  have a: "threads (trace s) \<Longrightarrow> threads (trace (fold (fire (tasks this)) later s))" for s
    using threads_fold [of "fire (tasks this)", OF f] .
  have "threads (trace (snd (execute this d)))"
    unfolding execute_def
    by (rule threads_runner_next(1)) (simp_all add: initial_state_def)
  then show ?thesis
    unfolding execute_then_def using a by simp
qed


section \<open>The engine on runs that keep to the protocol\<close>

lemma classify_Defer: "classify sc = Defer \<Longrightarrow> \<exists>v. sc = ([], Return v)"
  by (cases sc rule: classify.cases) (simp_all split: if_splits)

lemma classify_ThrowNow: "classify sc = ThrowNow e \<Longrightarrow> sc = ([], Throw e)"
  by (cases sc rule: classify.cases) (simp_all split: if_splits)

lemma classify_Fail: "classify sc = Fail err nd \<Longrightarrow> truthy err \<and> (\<exists>fin. sc = ([(err, nd)], fin))"
  by (cases sc rule: classify.cases) (simp_all split: if_splits)

lemma classify_Continue:
  "classify sc = Continue err nd \<Longrightarrow> \<not> truthy err \<and> (\<exists>fin. sc = ([(err, nd)], fin))"
  by (cases sc rule: classify.cases) (simp_all split: if_splits)

lemma prepend_Some:
  "prepend pre x = Some r \<longleftrightarrow> (\<exists>evs en. x = Some (evs, en) \<and> r = (pre @ evs, en))"
  by (cases x) auto

lemma fate_standing:
  "j < length ps \<Longrightarrow> act_state (ps ! j) = standing en \<Longrightarrow> fate ps j = result_of en"
  by (cases en) (simp_all add: fate.simps [of ps j])

lemma link_below: "Suc j < n \<Longrightarrow> link n en j = Resolved (Later (Suc j))"
  by (simp add: link_def)

lemma arrived_position:
  assumes "arrived ts a \<sigma> en"
  shows "position (length ts) en \<le> length ts"
    and "completed en \<longleftrightarrow> position (length ts) en = length ts"
    and "currentIndex \<sigma> = int (position (length ts) en)"
    and "length (promises \<sigma>)
           = (if position (length ts) en < length ts then Suc (position (length ts) en) else length ts)"
    and "j < length (promises \<sigma>) \<Longrightarrow> act_index (promises \<sigma> ! j) = j"
    and "a \<le> j \<Longrightarrow> j < position (length ts) en \<Longrightarrow>
           act_state (promises \<sigma> ! j) = link (length ts) en j"
    and "position (length ts) en < length ts \<Longrightarrow>
           act_state (promises \<sigma> ! position (length ts) en) = standing en"
    and "position (length ts) en < length ts \<Longrightarrow>
           holds_payload en (act_data (promises \<sigma> ! position (length ts) en))"
  using assms unfolding arrived_def by blast+

lemma arrived_settle:
  assumes ar: "arrived ts (Suc k) \<sigma> en" and km: "k < position (length ts) en"
    and pe: "act_state (promises \<sigma> ! k) = Pending"
    and r: "Resolved r = link (length ts) en k"
  shows "arrived ts k (settle k r \<sigma>) en"
proof -
  let ?m = "position (length ts) en"
  note a = arrived_position [OF ar]
  have len: "k < length (promises \<sigma>)"
    using a(1,4) km by (auto split: if_splits)
  have nk: "promises (settle k r \<sigma>) ! j = promises \<sigma> ! j" if "j \<noteq> k" for j
    using that by (simp add: settle_nth)
  have atk: "act_state (promises (settle k r \<sigma>) ! k) = link (length ts) en k"
    using len pe r by (simp add: settle_nth)
  show ?thesis
    unfolding arrived_def
  proof (intro conjI allI impI)
    show "?m \<le> length ts" "completed en \<longleftrightarrow> ?m = length ts"
      "currentIndex (settle k r \<sigma>) = int ?m"
      "length (promises (settle k r \<sigma>)) = (if ?m < length ts then Suc ?m else length ts)"
      using a(1-4) by simp_all
  next
    fix j assume "j < length (promises (settle k r \<sigma>))"
    then show "act_index (promises (settle k r \<sigma>) ! j) = j"
      using a(5) [of j] by (auto simp: settle_nth)
  next
    fix j assume j: "k \<le> j \<and> j < ?m"
    show "act_state (promises (settle k r \<sigma>) ! j) = link (length ts) en j"
    proof (cases "j = k")
      case True
      then show ?thesis using atk by simp
    next
      case False
      then have "Suc k \<le> j" using j by simp
      then show ?thesis using a(6) [of j] j nk [OF False] by simp
    qed
  next
    assume m: "?m < length ts"
    have "?m \<noteq> k" using km by simp
    then show "act_state (promises (settle k r \<sigma>) ! ?m) = standing en"
      and "holds_payload en (act_data (promises (settle k r \<sigma>) ! ?m))"
      using a(7,8) m nk [of ?m] by simp_all
  qed
qed

lemma arrived_lower:
  assumes ar: "arrived ts m \<sigma> en" and ml: "m < length ts"
    and low: "\<And>j. j < m \<Longrightarrow> act_state (promises \<sigma> ! j) = Resolved (Later (Suc j))"
  shows "arrived ts 0 \<sigma> en"
proof -
  note a = arrived_position [OF ar]
  have "act_state (promises \<sigma> ! j) = link (length ts) en j"
    if "j < position (length ts) en" for j
  proof (cases "j < m")
    case True
    then show ?thesis using low [OF True] ml by (simp add: link_def)
  next
    case False
    then show ?thesis using a(6) [of j] that by simp
  qed
  then show ?thesis
    using a(1-5,7,8) unfolding arrived_def by simp
qed

lemma fate_arrived:
  assumes ar: "arrived ts 0 \<sigma> en"
  shows "j \<le> position (length ts) en \<Longrightarrow> j < length (promises \<sigma>) \<Longrightarrow>
         fate (promises \<sigma>) j = result_of en"
proof (induction "position (length ts) en - j" arbitrary: j)
  case 0
  then have jm: "j = position (length ts) en" by simp
  note a = arrived_position [OF ar]
  have ml: "position (length ts) en < length ts"
    using a(1,4) "0.prems"(2) jm by (auto split: if_splits)
  have "act_state (promises \<sigma> ! j) = standing en"
    using a(7) [OF ml] jm by simp
  then show ?case
    using "0.prems"(2) by (intro fate_standing)
next
  case (Suc x)
  then have jm: "j < position (length ts) en" by simp
  note a = arrived_position [OF ar]
  have st: "act_state (promises \<sigma> ! j) = link (length ts) en j"
    using a(6) [of j] jm by simp
  show ?case
  proof (cases "Suc j < length ts")
    case True
    have x: "x = position (length ts) en - Suc j" using Suc.hyps(2) by simp
    have sj: "Suc j \<le> position (length ts) en" using jm by simp
    have sl: "Suc j < length (promises \<sigma>)"
      using a(4) jm True by (auto split: if_splits)
    have "fate (promises \<sigma>) (Suc j) = result_of en"
      using Suc.hyps(1) [OF x sj sl] .
    then show ?thesis
      using st True Suc.prems(2) unfolding fate.simps [of _ j]
      by (simp add: link_def)
  next
    case False
    then have "act_state (promises \<sigma> ! j) = standing en"
      using st by (simp add: link_def)
    then show ?thesis
      using Suc.prems(2) by (intro fate_standing)
  qed
qed


lemma arrived_here:
  assumes "k < length ts" and "position (length ts) en = k" and "\<not> completed en"
    and "currentIndex \<sigma> = int k" and "length (promises \<sigma>) = Suc k"
    and "\<forall>j<Suc k. act_index (promises \<sigma> ! j) = j"
    and "act_state (promises \<sigma> ! k) = standing en"
    and "holds_payload en (act_data (promises \<sigma> ! k))"
  shows "arrived ts k \<sigma> en"
  unfolding arrived_def using assms by auto

lemma new_promise_index:
  assumes "length (promises \<sigma>) = k" and "\<forall>j<k. act_index (promises \<sigma> ! j) = j"
  shows "\<forall>j<Suc k. act_index (promises (new_promise k d (\<sigma>\<lparr>currentIndex := c\<rparr>)) ! j) = j"
  using assms by (auto simp: nth_append less_Suc_eq)

lemma settle_index:
  "\<forall>j<n. act_index (promises \<sigma> ! j) = j \<Longrightarrow> \<forall>j<n. act_index (promises (settle p r \<sigma>) ! j) = j"
  by (auto simp: settle_nth)

lemma cascade:
  "k \<le> length ts \<Longrightarrow> int k \<noteq> currentIndex \<sigma> \<Longrightarrow> length (promises \<sigma>) = k \<Longrightarrow>
   (\<forall>j<k. act_index (promises \<sigma> ! j) = j) \<Longrightarrow>
   sequential_run (drop k ts) k d [] = Some (evs, en) \<Longrightarrow>
   trace (snd (runner ts k d \<sigma>)) = trace \<sigma> @ evs
   \<and> arrived ts k (snd (runner ts k d \<sigma>)) en
   \<and> k \<le> position (length ts) en
   \<and> fst (runner ts k d \<sigma>) = (if k < length ts then Later k else Now (adopt d))"
proof (induction "length ts - k" arbitrary: k d \<sigma> evs en)
  case 0
  then have kn: "k = length ts" by simp
  have r: "runner ts k d \<sigma> = (Now (adopt d), \<sigma>\<lparr>currentIndex := int k\<rparr>)"
    using runner_past_end [OF "0.prems"(2)] kn by simp
  have e: "evs = []" "en = Completed (adopt d)"
    using "0.prems"(5) kn by simp_all
  have "arrived ts k (\<sigma>\<lparr>currentIndex := int k\<rparr>) en"
    unfolding arrived_def e using "0.prems"(3,4) kn by auto
  then show ?case unfolding r using kn e by simp
next
  case (Suc n)
  then have kl: "k < length ts" by simp
  let ?\<sigma>2 = "new_promise k d (\<sigma>\<lparr>currentIndex := int k\<rparr>)"
  have pk: "length (promises \<sigma>) = k" using Suc.prems by simp
  have dr: "drop k ts = ts ! k # drop (Suc k) ts"
    using kl by (simp add: Cons_nth_drop_Suc)
  have seq: "sequential_run (ts ! k # drop (Suc k) ts) k d [] = Some (evs, en)"
    using Suc.prems(5) unfolding dr .
  have idx2: "\<forall>j<Suc k. act_index (promises ?\<sigma>2 ! j) = j"
    by (rule new_promise_index [OF pk Suc.prems(4)])
  have len2: "length (promises ?\<sigma>2) = Suc k" using pk by simp
  have at2: "promises ?\<sigma>2 ! k = \<lparr>act_index = k, act_data = d, act_state = Pending\<rparr>"
    using pk by (simp add: nth_append)
  show ?case
  proof (cases "dispatch (ts ! k)")
    case None
    then obtain v where tv: "ts ! k = Plain v" by (cases "ts ! k") (simp_all split: if_splits)
    define err where "err = (if v = VNull then null_property_error else no_handle_error)"
    have ob: "typeof_val v = TObject" and e: "evs = []" "en = Refused k err"
      using seq unfolding tv err_def by (simp_all split: if_splits)
    have r: "runner ts k d \<sigma> = (Later k, reject k err ?\<sigma>2)"
      unfolding runner_unfold [of ts k d \<sigma>] using Suc.prems(2) kl pk tv ob
      by (simp add: attempt_def err_def)
    have "arrived ts k (reject k err ?\<sigma>2) en"
      unfolding e reject_def
    proof (rule arrived_here [OF kl])
      show "\<forall>j<Suc k. act_index (promises (settle k (Now (Rejected err)) ?\<sigma>2) ! j) = j"
        by (rule settle_index [OF idx2])
    qed (simp_all add: settle_nth pk nth_append)
    then show ?thesis unfolding r using kl e by (simp add: reject_def)
  next
    case (Some mb)
    then obtain mode beh where dp: "dispatch (ts ! k) = Some (mode, beh)" by (cases mb) simp
    have r: "runner ts k d \<sigma> = (Later k, invoke ts k d k mode (beh d) ?\<sigma>2)"
      using runner_invokes [OF Suc.prems(2) kl dp] pk by simp
    let ?\<sigma>i = "log (Invoked k mode d) ?\<sigma>2"
    show ?thesis
    proof (cases "classify (beh d)")
      case Violate
      then show ?thesis using seq dp by simp
    next
      case Defer
      then obtain v where bd: "beh d = ([], Return v)" using classify_Defer by blast
      have e: "evs = [Invoked k mode d]" "en = Waiting k d"
        using seq dp Defer by simp_all
      have i: "invoke ts k d k mode (beh d) ?\<sigma>2 = ?\<sigma>i"
        unfolding bd by (simp add: invoke_def)
      have "arrived ts k ?\<sigma>i en"
        unfolding e
        by (rule arrived_here [OF kl]) (use idx2 pk in \<open>simp_all add: nth_append\<close>)
      then show ?thesis unfolding r i using kl e by simp
    next
      case (ThrowNow x)
      then have bd: "beh d = ([], Throw x)" using classify_ThrowNow by blast
      have e: "evs = [Invoked k mode d]" "en = Threw k x"
        using seq dp ThrowNow by simp_all
      have i: "invoke ts k d k mode (beh d) ?\<sigma>2 = reject k x ?\<sigma>i"
        unfolding bd by (simp add: invoke_def)
      have "arrived ts k (reject k x ?\<sigma>i) en"
        unfolding e reject_def
      proof (rule arrived_here [OF kl])
        show "\<forall>j<Suc k. act_index (promises (settle k (Now (Rejected x)) ?\<sigma>i) ! j) = j"
          by (rule settle_index) (use idx2 in simp)
      qed (simp_all add: settle_nth pk nth_append)
      then show ?thesis unfolding r i using kl e by (simp add: reject_def)
    next
      case (Fail err nd)
      then obtain fin where te: "truthy err" and bd: "beh d = ([(err, nd)], fin)"
        using classify_Fail by blast
      have e: "evs = [Invoked k mode d, NextCalled k d err nd]" "en = Failed k err"
        using seq dp Fail by simp_all
      let ?X = "reject k err (log (NextCalled k d err nd) ?\<sigma>i)"
      have nf: "next_fn ts k d k (err, nd) ?\<sigma>i = ?X"
        unfolding next_fn_unfold using te by simp
      have lenX: "k < length (promises ?X)" by (simp add: reject_def pk)
      have resX: "act_state (promises ?X ! k) \<noteq> Pending"
        by (simp add: reject_def settle_nth pk nth_append)
      have i: "invoke ts k d k mode (beh d) ?\<sigma>2 = ?X"
        unfolding bd invoke_single nf
        by (cases fin) (simp_all add: reject_def [of k _ ?X] settle_resolved [OF lenX resX])
      have "arrived ts k ?X en"
        unfolding e reject_def
      proof (rule arrived_here [OF kl])
        show "\<forall>j<Suc k. act_index (promises (settle k (Now (Rejected err)) (log (NextCalled k d err nd) ?\<sigma>i)) ! j) = j"
          by (rule settle_index) (use idx2 in simp)
      qed (simp_all add: settle_nth pk nth_append)
      then show ?thesis unfolding r i using kl e by (simp add: reject_def)
    next
      case (Continue err nd)
      then obtain fin where ne: "\<not> truthy err" and bd: "beh d = ([(err, nd)], fin)"
        using classify_Continue by blast
      define d' where "d' = (if nd \<noteq> VUndefined then nd else d)"
      define \<sigma>0 where "\<sigma>0 = log (NextCalled k d err nd) ?\<sigma>i"
      define rs where "rs = runner ts (Suc k) d' \<sigma>0"
      define X where "X = settle k (fst rs) (snd rs)"
      have "prepend [Invoked k mode d, NextCalled k d err nd]
              (sequential_run (drop (Suc k) ts) (Suc k) d' []) = Some (evs, en)"
        using seq dp Continue unfolding d'_def by simp
      then obtain evs' where rec: "sequential_run (drop (Suc k) ts) (Suc k) d' [] = Some (evs', en)"
        and e: "evs = [Invoked k mode d, NextCalled k d err nd] @ evs'"
        unfolding prepend_Some by blast
      have nf: "next_fn ts k d k (err, nd) ?\<sigma>i = X"
        unfolding next_fn_unfold X_def rs_def \<sigma>0_def d'_def resolve_def using ne by simp
      have len0: "length (promises \<sigma>0) = Suc k" using pk by (simp add: \<sigma>0_def)
      have pend0: "act_state (promises \<sigma>0 ! k) = Pending"
        using pk by (simp add: \<sigma>0_def nth_append)
      have idx0: "\<forall>j<Suc k. act_index (promises \<sigma>0 ! j) = j"
        using idx2 by (simp add: \<sigma>0_def)
      have g0: "int (Suc k) \<noteq> currentIndex \<sigma>0" by (simp add: \<sigma>0_def)
      have n': "n = length ts - Suc k" using Suc.hyps(2) by simp
      have kn: "Suc k \<le> length ts" using kl by simp
      have ih: "trace (snd rs) = trace \<sigma>0 @ evs'
          \<and> arrived ts (Suc k) (snd rs) en
          \<and> Suc k \<le> position (length ts) en
          \<and> fst rs = (if Suc k < length ts then Later (Suc k) else Now (adopt d'))"
        unfolding rs_def by (rule Suc.hyps(1) [OF n' kn g0 len0 idx0 rec])
      then have tr: "trace (snd rs) = trace \<sigma>0 @ evs'"
        and ar: "arrived ts (Suc k) (snd rs) en"
        and m: "Suc k \<le> position (length ts) en"
        and fr: "fst rs = (if Suc k < length ts then Later (Suc k) else Now (adopt d'))"
        by simp_all
      have pend1: "act_state (promises (snd rs) ! k) = Pending"
        unfolding rs_def using runner_old_promises [of k \<sigma>0 ts "Suc k" d'] len0 pend0 by simp
      have lk: "Resolved (fst rs) = link (length ts) en k"
      proof (cases "Suc k < length ts")
        case True
        then show ?thesis using fr by (simp add: link_def)
      next
        case False
        then have "drop (Suc k) ts = []" by simp
        then have "en = Completed (adopt d')" using rec by simp
        then show ?thesis using fr False by (simp add: link_def)
      qed
      have arX: "arrived ts k X en"
        unfolding X_def using m by (intro arrived_settle [OF ar _ pend1 lk]) simp
      have lenX: "k < length (promises X)"
        using arrived_position(1,4) [OF arX] m by (auto split: if_splits)
      have "act_state (promises X ! k) = link (length ts) en k"
        using arrived_position(6) [OF arX, of k] m by simp
      then have resX: "act_state (promises X ! k) \<noteq> Pending"
        using lk [symmetric] by simp
      have i: "invoke ts k d k mode (beh d) ?\<sigma>2 = X"
        unfolding bd invoke_single nf
        by (cases fin) (simp_all add: reject_def settle_resolved [OF lenX resX])
      have "trace X = trace \<sigma> @ evs"
        unfolding X_def e using tr by (simp add: \<sigma>0_def)
      moreover have "k \<le> position (length ts) en" using m by simp
      ultimately show ?thesis unfolding r i using arX kl by simp
    qed
  qed
qed


lemma arrived_waiting:
  assumes "arrived ts a \<sigma> (Waiting m dm)"
  shows "m < length ts" and "currentIndex \<sigma> = int m" and "length (promises \<sigma>) = Suc m"
    and "\<forall>j<Suc m. act_index (promises \<sigma> ! j) = j"
    and "act_state (promises \<sigma> ! m) = Pending" and "act_data (promises \<sigma> ! m) = dm"
    and "\<And>j. a \<le> j \<Longrightarrow> j < m \<Longrightarrow> act_state (promises \<sigma> ! j) = Resolved (Later (Suc j))"
proof -
  note a = arrived_position [OF assms]
  show ml: "m < length ts" using a(1,2) by simp
  show "currentIndex \<sigma> = int m" using a(3) by simp
  show len: "length (promises \<sigma>) = Suc m" using a(4) ml by simp
  show "\<forall>j<Suc m. act_index (promises \<sigma> ! j) = j" using a(5) len by simp
  show "act_state (promises \<sigma> ! m) = Pending" using a(7) ml by simp
  show "act_data (promises \<sigma> ! m) = dm" using a(8) ml by simp
  show "act_state (promises \<sigma> ! j) = Resolved (Later (Suc j))" if "a \<le> j" "j < m" for j
    using a(6) [of j] that ml by (simp add: link_def)
qed

lemma fire_waiting_error:
  assumes ar: "arrived ts 0 \<sigma> (Waiting m dm)" and te: "truthy err"
  shows "arrived ts 0 (fire ts (m, err, nd) \<sigma>) (Failed m err)"
    and "trace (fire ts (m, err, nd) \<sigma>) = trace \<sigma> @ [NextCalled m dm err nd]"
proof -
  note w = arrived_waiting [OF ar]
  have f: "fire ts (m, err, nd) \<sigma> = settle m (Now (Rejected err)) (log (NextCalled m dm err nd) \<sigma>)"
    unfolding fire_def Let_def using w(3,4,6) te
    by (simp add: next_fn_unfold reject_def)
  show "trace (fire ts (m, err, nd) \<sigma>) = trace \<sigma> @ [NextCalled m dm err nd]"
    unfolding f by simp
  have "arrived ts m (settle m (Now (Rejected err)) (log (NextCalled m dm err nd) \<sigma>)) (Failed m err)"
  proof (rule arrived_here [OF w(1)])
    show "\<forall>j<Suc m. act_index (promises (settle m (Now (Rejected err)) (log (NextCalled m dm err nd) \<sigma>)) ! j) = j"
      by (rule settle_index) (use w(4) in simp)
  qed (simp_all add: settle_nth w)
  then show "arrived ts 0 (fire ts (m, err, nd) \<sigma>) (Failed m err)"
    unfolding f
  proof (rule arrived_lower [OF _ w(1)])
    fix j assume "j < m"
    then show "act_state (promises (settle m (Now (Rejected err)) (log (NextCalled m dm err nd) \<sigma>)) ! j)
        = Resolved (Later (Suc j))"
      using w(7) [of j] by (simp add: settle_nth)
  qed
qed

lemma fire_waiting_continue:
  assumes ar: "arrived ts 0 \<sigma> (Waiting m dm)" and ne: "\<not> truthy err"
    and rec: "sequential_run (drop (Suc m) ts) (Suc m) (if nd \<noteq> VUndefined then nd else dm) []
                = Some (evs, en)"
  shows "arrived ts 0 (fire ts (m, err, nd) \<sigma>) en"
    and "trace (fire ts (m, err, nd) \<sigma>) = trace \<sigma> @ NextCalled m dm err nd # evs"
proof -
  note w = arrived_waiting [OF ar]
  define d' where "d' = (if nd \<noteq> VUndefined then nd else dm)"
  define \<sigma>0 where "\<sigma>0 = log (NextCalled m dm err nd) \<sigma>"
  define rs where "rs = runner ts (Suc m) d' \<sigma>0"
  have f: "fire ts (m, err, nd) \<sigma> = settle m (fst rs) (snd rs)"
    unfolding fire_def Let_def using w(3,4,6) ne
    by (simp add: next_fn_unfold resolve_def rs_def \<sigma>0_def d'_def)
  have g0: "int (Suc m) \<noteq> currentIndex \<sigma>0" using w(2) by (simp add: \<sigma>0_def)
  have len0: "length (promises \<sigma>0) = Suc m" using w(3) by (simp add: \<sigma>0_def)
  have idx0: "\<forall>j<Suc m. act_index (promises \<sigma>0 ! j) = j" using w(4) by (simp add: \<sigma>0_def)
  have sm: "Suc m \<le> length ts" using w(1) by simp
  have c: "trace (snd rs) = trace \<sigma>0 @ evs
          \<and> arrived ts (Suc m) (snd rs) en
          \<and> Suc m \<le> position (length ts) en
          \<and> fst rs = (if Suc m < length ts then Later (Suc m) else Now (adopt d'))"
    unfolding rs_def by (rule cascade [OF sm g0 len0 idx0 rec [folded d'_def]])
  then have tr: "trace (snd rs) = trace \<sigma>0 @ evs"
    and ar1: "arrived ts (Suc m) (snd rs) en"
    and m': "Suc m \<le> position (length ts) en"
    and fr: "fst rs = (if Suc m < length ts then Later (Suc m) else Now (adopt d'))"
    by simp_all
  have old: "promises (snd rs) ! j = promises \<sigma> ! j" if "j < Suc m" for j
    unfolding rs_def using runner_old_promises [of j \<sigma>0 ts "Suc m" d'] len0 that
    by (simp add: \<sigma>0_def)
  have pend1: "act_state (promises (snd rs) ! m) = Pending"
    using old [of m] w(5) by simp
  have lk: "Resolved (fst rs) = link (length ts) en m"
  proof (cases "Suc m < length ts")
    case True
    then show ?thesis using fr by (simp add: link_def)
  next
    case False
    then have "drop (Suc m) ts = []" by simp
    then have "en = Completed (adopt d')" using rec by (simp add: d'_def)
    then show ?thesis using fr False by (simp add: link_def)
  qed
  have arm: "arrived ts m (settle m (fst rs) (snd rs)) en"
    using m' by (intro arrived_settle [OF ar1 _ pend1 lk]) simp
  show "arrived ts 0 (fire ts (m, err, nd) \<sigma>) en"
    unfolding f
  proof (rule arrived_lower [OF arm w(1)])
    fix j assume "j < m"
    then show "act_state (promises (settle m (fst rs) (snd rs)) ! j) = Resolved (Later (Suc j))"
      using w(7) [of j] old [of j] by (simp add: settle_nth)
  qed
  show "trace (fire ts (m, err, nd) \<sigma>) = trace \<sigma> @ NextCalled m dm err nd # evs"
    unfolding f using tr by (simp add: \<sigma>0_def)
qed

lemma sequential_run_sync:
  "sequential_run xs i d later = Some r \<Longrightarrow> \<exists>r0. sequential_run xs i d [] = Some r0"
proof (induction xs arbitrary: i d later r)
  case Nil
  then show ?case by simp
next
  case (Cons t xs)
  show ?case
  proof (cases "dispatch t")
    case None
    then show ?thesis using Cons.prems by (cases t) (simp_all split: if_splits)
  next
    case (Some mb)
    then obtain mode beh where dp: "dispatch t = Some (mode, beh)" by (cases mb) simp
    show ?thesis
    proof (cases "classify (beh d)")
      case (Continue err nd)
      then obtain r' where "sequential_run xs (Suc i) (if nd \<noteq> VUndefined then nd else d) later = Some r'"
        using Cons.prems dp by (auto simp: prepend_Some)
      from Cons.IH [OF this] obtain r0 where
        "sequential_run xs (Suc i) (if nd \<noteq> VUndefined then nd else d) [] = Some r0" by blast
      then show ?thesis using dp Continue by (cases r0) simp
    qed (use Cons.prems dp in \<open>simp_all split: if_splits\<close>)
  qed
qed

lemma sequential_run_split:
  "sequential_run xs i d (pc # later) = Some (evs, en) \<Longrightarrow>
   \<exists>evs0 m dm. sequential_run xs i d [] = Some (evs0, Waiting m dm)
      \<and> fst pc = m \<and> i \<le> m \<and> m < i + length xs
      \<and> (if truthy (fst (snd pc))
         then later = [] \<and> en = Failed m (fst (snd pc))
              \<and> evs = evs0 @ [NextCalled m dm (fst (snd pc)) (snd (snd pc))]
         else \<exists>evs1. sequential_run (drop (Suc (m - i)) xs) (Suc m)
                         (if snd (snd pc) \<noteq> VUndefined then snd (snd pc) else dm) later
                       = Some (evs1, en)
                \<and> evs = evs0 @ NextCalled m dm (fst (snd pc)) (snd (snd pc)) # evs1)"
proof (induction xs arbitrary: i d evs)
  case Nil
  then show ?case by simp
next
  case (Cons t xs)
  show ?case
  proof (cases "dispatch t")
    case None
    then show ?thesis using Cons.prems by (cases t) (simp_all split: if_splits)
  next
    case (Some mb)
    then obtain mode beh where dp: "dispatch t = Some (mode, beh)" by (cases mb) simp
    show ?thesis
    proof (cases "classify (beh d)")
      case Violate
      then show ?thesis using Cons.prems dp by simp
    next
      case (ThrowNow e)
      then show ?thesis using Cons.prems dp by simp
    next
      case (Fail err nd)
      then show ?thesis using Cons.prems dp by simp
    next
      case (Continue err nd)
      define d' where "d' = (if nd \<noteq> VUndefined then nd else d)"
      let ?pre = "[Invoked i mode d, NextCalled i d err nd]"
      obtain evs' where rec: "sequential_run xs (Suc i) d' (pc # later) = Some (evs', en)"
        and e: "evs = ?pre @ evs'"
        using Cons.prems dp Continue unfolding d'_def by (auto simp: prepend_Some)
      from Cons.IH [OF rec] obtain evs0 m dm where
        s0: "sequential_run xs (Suc i) d' [] = Some (evs0, Waiting m dm)"
        and pm: "fst pc = m" and im: "Suc i \<le> m" and ml: "m < Suc i + length xs"
        and rest: "if truthy (fst (snd pc))
         then later = [] \<and> en = Failed m (fst (snd pc))
              \<and> evs' = evs0 @ [NextCalled m dm (fst (snd pc)) (snd (snd pc))]
         else \<exists>evs1. sequential_run (drop (Suc (m - Suc i)) xs) (Suc m)
                         (if snd (snd pc) \<noteq> VUndefined then snd (snd pc) else dm) later
                       = Some (evs1, en)
                \<and> evs' = evs0 @ NextCalled m dm (fst (snd pc)) (snd (snd pc)) # evs1"
        by blast
      have t0: "sequential_run (t # xs) i d [] = Some (?pre @ evs0, Waiting m dm)"
        using dp Continue s0 unfolding d'_def by simp
      have "m - i = Suc (m - Suc i)" using im by simp
      then have dr: "drop (Suc (m - i)) (t # xs) = drop (Suc (m - Suc i)) xs"
        by simp
      show ?thesis
      proof (intro exI conjI)
        show "sequential_run (t # xs) i d [] = Some (?pre @ evs0, Waiting m dm)" by (rule t0)
        show "fst pc = m" by (rule pm)
        show "i \<le> m" using im by simp
        show "m < i + length (t # xs)" using ml by simp
        show "if truthy (fst (snd pc))
         then later = [] \<and> en = Failed m (fst (snd pc))
              \<and> evs = (?pre @ evs0) @ [NextCalled m dm (fst (snd pc)) (snd (snd pc))]
         else \<exists>evs1. sequential_run (drop (Suc (m - i)) (t # xs)) (Suc m)
                         (if snd (snd pc) \<noteq> VUndefined then snd (snd pc) else dm) later
                       = Some (evs1, en)
                \<and> evs = (?pre @ evs0) @ NextCalled m dm (fst (snd pc)) (snd (snd pc)) # evs1"
          unfolding dr e using rest by (cases "truthy (fst (snd pc))") auto
      qed
    next
      case Defer
      have pi: "fst pc = i" using Cons.prems dp Defer by (simp split: if_splits)
      have t0: "sequential_run (t # xs) i d [] = Some ([Invoked i mode d], Waiting i d)"
        using dp Defer by simp
      show ?thesis
      proof (intro exI conjI)
        show "sequential_run (t # xs) i d [] = Some ([Invoked i mode d], Waiting i d)" by (rule t0)
        show "fst pc = i" by (rule pi)
        show "i \<le> i" by simp
        show "i < i + length (t # xs)" by simp
        show "if truthy (fst (snd pc))
         then later = [] \<and> en = Failed i (fst (snd pc))
              \<and> evs = [Invoked i mode d] @ [NextCalled i d (fst (snd pc)) (snd (snd pc))]
         else \<exists>evs1. sequential_run (drop (Suc (i - i)) (t # xs)) (Suc i)
                         (if snd (snd pc) \<noteq> VUndefined then snd (snd pc) else d) later
                       = Some (evs1, en)
                \<and> evs = [Invoked i mode d] @ NextCalled i d (fst (snd pc)) (snd (snd pc)) # evs1"
          using Cons.prems dp Defer pi
          by (cases "truthy (fst (snd pc))") (auto simp: prepend_Some split: if_splits)
      qed
    qed
  qed
qed


lemma run_later:
  "arrived ts 0 \<sigma> en0 \<Longrightarrow> k \<le> length ts \<Longrightarrow>
   sequential_run (drop k ts) k d [] = Some (evs0, en0) \<Longrightarrow> trace \<sigma> = T @ evs0 \<Longrightarrow>
   sequential_run (drop k ts) k d later = Some (evs, en) \<Longrightarrow>
   arrived ts 0 (fold (fire ts) later \<sigma>) en \<and> trace (fold (fire ts) later \<sigma>) = T @ evs"
proof (induction later arbitrary: \<sigma> k d evs0 en0 T evs)
  case Nil
  then show ?case by simp
next
  case (Cons pc later)
  obtain err nd where c: "snd pc = (err, nd)" by (cases "snd pc")
  from sequential_run_split [OF Cons.prems(5)] obtain evs0' m dm where
    s0: "sequential_run (drop k ts) k d [] = Some (evs0', Waiting m dm)"
    and pm: "fst pc = m" and km: "k \<le> m"
    and rest: "if truthy err
         then later = [] \<and> en = Failed m err \<and> evs = evs0' @ [NextCalled m dm err nd]
         else \<exists>evs1. sequential_run (drop (Suc (m - k)) (drop k ts)) (Suc m)
                         (if nd \<noteq> VUndefined then nd else dm) later = Some (evs1, en)
                \<and> evs = evs0' @ NextCalled m dm err nd # evs1"
    unfolding c fst_conv snd_conv by blast
  have e0: "evs0' = evs0" "en0 = Waiting m dm"
    using s0 Cons.prems(3) by simp_all
  have pc: "pc = (m, err, nd)" using pm c by (cases pc) simp
  have ar: "arrived ts 0 \<sigma> (Waiting m dm)" using Cons.prems(1) e0 by simp
  show ?case
  proof (cases "truthy err")
    case True
    then have l: "later = []" and en: "en = Failed m err"
      and ev: "evs = evs0 @ [NextCalled m dm err nd]"
      using rest e0 by simp_all
    show ?thesis
      unfolding l pc en ev
      using fire_waiting_error [OF ar True, of nd] Cons.prems(4) by simp
  next
    case False
    define d' where "d' = (if nd \<noteq> VUndefined then nd else dm)"
    have "Suc (m - k) + k = Suc m" using km by simp
    then have dd: "drop (Suc (m - k)) (drop k ts) = drop (Suc m) ts"
      by (simp del: drop_Suc add: add.commute)
    obtain evs1 where rec: "sequential_run (drop (Suc m) ts) (Suc m) d' later = Some (evs1, en)"
      and ev: "evs = evs0 @ NextCalled m dm err nd # evs1"
      using rest False e0 unfolding dd d'_def by auto
    obtain evs2 en2 where sy: "sequential_run (drop (Suc m) ts) (Suc m) d' [] = Some (evs2, en2)"
      using sequential_run_sync [OF rec] by auto
    have ar1: "arrived ts 0 (fire ts (m, err, nd) \<sigma>) en2"
      and tr1: "trace (fire ts (m, err, nd) \<sigma>) = trace \<sigma> @ NextCalled m dm err nd # evs2"
      using fire_waiting_continue [OF ar False sy [unfolded d'_def]] by simp_all
    have sm: "Suc m \<le> length ts" using arrived_waiting(1) [OF ar] by simp
    have tr2: "trace (fire ts (m, err, nd) \<sigma>) = (T @ evs0 @ [NextCalled m dm err nd]) @ evs2"
      using tr1 Cons.prems(4) by simp
    have "arrived ts 0 (fold (fire ts) later (fire ts (m, err, nd) \<sigma>)) en
        \<and> trace (fold (fire ts) later (fire ts (m, err, nd) \<sigma>))
            = (T @ evs0 @ [NextCalled m dm err nd]) @ evs1"
      by (rule Cons.IH [OF ar1 sm sy tr2 rec])
    then show ?thesis unfolding pc ev by simp
  qed
qed

lemma outcome_final:
  assumes "outcome (execute_then this d later) = Some s"
  shows "outcome (execute_then this d (later @ further)) = Some s"
  using assms
  by (cases "fst (execute this d)") (simp_all add: outcome_def execute_then_def fate_fold_fire)

lemma engine_runs_sequentially:
  assumes sq: "sequential_run (tasks this) 0 d later = Some (evs, en)"
  shows "trace (snd (execute_then this d later)) = evs"
    and "outcome (execute_then this d later) = result_of en"
    and "arrived (tasks this) 0 (snd (execute_then this d later)) en"
proof -
  let ?ts = "tasks this"
  let ?rs = "runner ?ts 0 d initial_state"
  let ?\<sigma> = "fold (fire ?ts) later (snd ?rs)"
  have et: "execute_then this d later = (fst ?rs, ?\<sigma>)"
    by (simp add: execute_then_def execute_def)
  obtain evs0 en0 where sy: "sequential_run (drop 0 ?ts) 0 d [] = Some (evs0, en0)"
    using sequential_run_sync [OF sq] by auto
  have "trace (snd ?rs) = trace initial_state @ evs0
      \<and> arrived ?ts 0 (snd ?rs) en0
      \<and> 0 \<le> position (length ?ts) en0
      \<and> fst ?rs = (if 0 < length ?ts then Later 0 else Now (adopt d))"
    by (rule cascade [OF _ _ _ _ sy]) (simp_all add: initial_state_def)
  then have tr0: "trace (snd ?rs) = [] @ evs0" and ar0: "arrived ?ts 0 (snd ?rs) en0"
    and fr: "fst ?rs = (if 0 < length ?ts then Later 0 else Now (adopt d))"
    by (simp_all add: initial_state_def)
  have sq': "sequential_run (drop 0 ?ts) 0 d later = Some (evs, en)" using sq by simp
  have fin: "arrived ?ts 0 ?\<sigma> en \<and> trace ?\<sigma> = [] @ evs"
    by (rule run_later [OF ar0 _ sy tr0 sq']) simp
  show "trace (snd (execute_then this d later)) = evs"
    unfolding et using fin by simp
  show "arrived (tasks this) 0 (snd (execute_then this d later)) en"
    unfolding et using fin by simp
  show "outcome (execute_then this d later) = result_of en"
  proof (cases "0 < length ?ts")
    case True
    note a = arrived_position [OF conjunct1 [OF fin]]
    have "0 < length (promises ?\<sigma>)" using a(4) True by (simp split: if_splits)
    then have "fate (promises ?\<sigma>) 0 = result_of en"
      by (intro fate_arrived [OF conjunct1 [OF fin]]) simp_all
    then show ?thesis unfolding et using fr True by (simp add: outcome_def)
  next
    case False
    then have "en = Completed (adopt d)" using sq by (simp split: if_splits)
    then show ?thesis unfolding et using fr False by (simp add: outcome_def)
  qed
qed

lemma in_order_empty: "in_order k k = []"
  by (simp add: in_order_def)

lemma in_order_Cons: "k < m \<Longrightarrow> in_order k m = Began k # Fired k # in_order (Suc k) m"
  by (simp add: in_order_def upt_conv_Cons)

lemma in_order_snoc: "k \<le> m \<Longrightarrow> in_order k (Suc m) = in_order k m @ [Began m, Fired m]"
  by (simp add: in_order_def)

lemma sequential_run_shape:
  "sequential_run xs k d later = Some (evs, en) \<Longrightarrow>
   k \<le> position (k + length xs) en
   \<and> map shape evs = in_order k (position (k + length xs) en) @ closing en"
proof (induction xs arbitrary: k d later evs)
  case Nil
  then show ?case by (auto simp: in_order_empty split: if_splits)
next
  case (Cons t xs)
  have step: "k \<le> position (k + length (t # xs)) en
      \<and> map shape (Invoked k mode d # NextCalled k d err nd # evs')
          = in_order k (position (k + length (t # xs)) en) @ closing en"
    if "sequential_run xs (Suc k) d' later' = Some (evs', en)" for mode err nd evs' d' later'
  proof -
    from Cons.IH [OF that] have a: "Suc k \<le> position (Suc k + length xs) en"
      and b: "map shape evs' = in_order (Suc k) (position (Suc k + length xs) en) @ closing en"
      by simp_all
    have "k < position (Suc k + length xs) en" using a by simp
    from in_order_Cons [OF this] show ?thesis using a b by simp
  qed
  show ?case
  proof (cases "dispatch t")
    case None
    then show ?thesis using Cons.prems
      by (cases t) (auto simp: in_order_empty split: if_splits)
  next
    case (Some mb)
    then obtain mode beh where dp: "dispatch t = Some (mode, beh)" by (cases mb) simp
    show ?thesis
    proof (cases "classify (beh d)")
      case Violate
      then show ?thesis using Cons.prems dp by simp
    next
      case (ThrowNow e)
      then show ?thesis using Cons.prems dp by (auto simp: in_order_empty split: if_splits)
    next
      case (Fail err nd)
      then show ?thesis using Cons.prems dp by (auto simp: in_order_empty split: if_splits)
    next
      case (Continue err nd)
      then obtain evs' where
        "sequential_run xs (Suc k) (if nd \<noteq> VUndefined then nd else d) later = Some (evs', en)"
        and "evs = [Invoked k mode d, NextCalled k d err nd] @ evs'"
        using Cons.prems dp by (auto simp: prepend_Some)
      then show ?thesis using step [of _ later evs' mode err nd] by simp
    next
      case Defer
      show ?thesis
      proof (cases later)
        case Nil
        then show ?thesis using Cons.prems dp Defer by (auto simp: in_order_empty)
      next
        case (Cons pc later')
        show ?thesis
        proof (cases "truthy (fst (snd pc))")
          case True
          then show ?thesis using Cons.prems dp Defer Cons
            by (auto simp: in_order_empty split: if_splits)
        next
          case False
          then obtain evs' where
            "sequential_run xs (Suc k) (if snd (snd pc) \<noteq> VUndefined then snd (snd pc) else d) later'
               = Some (evs', en)"
            and "evs = [Invoked k mode d, NextCalled k d (fst (snd pc)) (snd (snd pc))] @ evs'"
            using Cons.prems dp Defer Cons by (auto simp: prepend_Some split: if_splits)
          then show ?thesis
            using step [of _ later' evs' mode "fst (snd pc)" "snd (snd pc)"] by simp
        qed
      qed
    qed
  qed
qed


lemma adopt_plain: "\<not> is_promise x \<Longrightarrow> adopt x = Fulfilled x"
  by (cases x) simp_all

lemma sequential_run_Failed:
  "sequential_run xs k d later = Some (evs, Failed i e) \<Longrightarrow> truthy e \<and> k \<le> i \<and> i < k + length xs"
proof (induction xs arbitrary: k d later evs)
  case Nil
  then show ?case by (simp split: if_splits)
next
  case (Cons t xs)
  have step: "truthy e \<and> k \<le> i \<and> i < k + length (t # xs)"
    if "sequential_run xs (Suc k) d' later' = Some (evs', Failed i e)" for d' later' evs'
    using Cons.IH [OF that] by simp
  show ?case
  proof (cases "dispatch t")
    case None
    then show ?thesis using Cons.prems by (cases t) (simp_all split: if_splits)
  next
    case (Some mb)
    then obtain mode beh where dp: "dispatch t = Some (mode, beh)" by (cases mb) simp
    show ?thesis
    proof (cases "classify (beh d)")
      case (Fail err nd)
      then show ?thesis using Cons.prems dp classify_Fail [OF Fail] by (simp split: if_splits)
    next
      case (Continue err nd)
      then show ?thesis using Cons.prems dp step by (auto simp: prepend_Some)
    next
      case Defer
      show ?thesis
      proof (cases later)
        case Nil
        then show ?thesis using Cons.prems dp Defer by simp
      next
        case (Cons pc later')
        then show ?thesis using Cons.prems dp Defer step
          by (cases "truthy (fst (snd pc))") (auto simp: prepend_Some split: if_splits)
      qed
    qed (use Cons.prems dp in \<open>simp_all split: if_splits\<close>)
  qed
qed



section \<open>The empty pipeline\<close>

text \<open>
  C6 says that \<open>execute x\<close> on a pipeline without tasks resolves with exactly \<open>x\<close>
  for every payload \<open>x\<close>. When \<open>x\<close> is a promise that rejects, the result of
  \<open>execute\<close> is not fulfilled with \<open>x\<close>: it rejects.
\<close>

theorem execute_empty_rejected_promise:
  "outcome (execute new_pipeline (VRejectedPromise (VError ''Error'' ''boom'')))
     = Some (Rejected (VError ''Error'' ''boom''))"
  by (simp add: execute_def runner.simps initial_state_def outcome_def new_pipeline_def)

text \<open>
  C6, amended: on a pipeline without tasks \<open>execute x\<close> returns at once what an
  \<open>async\<close> function returning \<open>x\<close> returns: a promise fulfilled with exactly \<open>x\<close>,
  unchanged, when \<open>x\<close> is not a promise, and a promise that adopts \<open>x\<close> when it
  is one. No task is invoked, no promise is created, and continuation calls cannot
  change the result.
\<close>

theorem execute_empty:
  assumes "tasks this = []"
  shows "fst (execute this x) = Now (adopt x)
         \<and> outcome (execute_then this x later) = Some (adopt x)
         \<and> (\<not> is_promise x \<longrightarrow> outcome (execute_then this x later) = Some (Fulfilled x))
         \<and> trace (snd (execute this x)) = []
         \<and> promises (snd (execute this x)) = []"
proof -
  have a: "fst (execute this x) = Now (adopt x)" "trace (snd (execute this x)) = []"
    "promises (snd (execute this x)) = []"
    using assms by (simp_all add: execute_def runner.simps initial_state_def)
  have "outcome (execute this x) = Some (adopt x)"
    using a(1) by (simp add: outcome_def)
  then have b: "outcome (execute_then this x later) = Some (adopt x)"
    by (rule outcome_stable)
  show ?thesis using a b by (simp add: adopt_plain)
qed

theorem execute_empty_witness:
  "tasks new_pipeline = []
   \<and> outcome (execute_then new_pipeline (VObject [(''n'', VNum 1)]) [])
       = Some (Fulfilled (VObject [(''n'', VNum 1)]))
   \<and> outcome (execute_then new_pipeline (VFulfilledPromise (VNum 5)) []) = Some (Fulfilled (VNum 5))"
  using execute_empty [of new_pipeline "VObject [(''n'', VNum 1)]" "[]"]
    execute_empty [of new_pipeline "VFulfilledPromise (VNum 5)" "[]"]
  by (simp add: new_pipeline_def)

section \<open>Dispatch by shape\<close>




section \<open>Payload threading\<close>

text \<open>
  C3 says that whenever a continuation is called with a falsy error, the next task, or
  the final result after the last task, receives exactly \<open>nextData\<close> if supplied and
  \<open>data\<close> otherwise. Three runs in which it does not: the last task hands on a
  promise that rejects, and \<open>execute\<close> rejects instead of being fulfilled with that
  promise; a task calls its continuation a second time with \<open>2\<close>, and its successor
  is not invoked on \<open>2\<close>; the last task calls its continuation with \<open>5\<close> after
  having called it with an error, and the result is that error.
\<close>

theorem continuation_payload_counterexample:
  "outcome (execute \<lparr>tasks = [task_hand_on_rejection]\<rparr> (VNum 1))
     = Some (Rejected (VError ''Error'' ''boom''))
   \<and> trace (snd (execute \<lparr>tasks = [task_next_one_then_two, task_deferring]\<rparr> (VNum 0)))
     = [Invoked 0 Plainly (VNum 0), NextCalled 0 (VNum 0) VNull (VNum 1),
        Invoked 1 Plainly (VNum 1), NextCalled 0 (VNum 0) VNull (VNum 2)]
   \<and> outcome (execute \<lparr>tasks = [task_fail_then_next_five]\<rparr> (VNum 1))
     = Some (Rejected (VError ''Error'' ''bad''))"
  by (simp add: outcome_def execute_def initial_state_def task_hand_on_rejection_def
      task_next_one_then_two_def task_deferring_def task_fail_then_next_five_def
      runner.simps next_fn.simps class_source_def log_def resolve_def reject_def settle_def
      new_promise_def multiple_next_error_def fate.simps Let_def)

text \<open>
  C3, amended. A continuation called with a falsy error hands on \<open>nextData\<close> when
  \<open>nextData\<close> is anything but \<open>undefined\<close> (so \<open>null\<close>, \<open>0\<close>, \<open>''\<close> and
  \<open>false\<close> replace the payload) and the payload \<open>data\<close> of its activation
  otherwise. When the call passes the guard (the cursor is not already at the next
  index): if there is a next task and it can be dispatched (a function, or an object
  with a \<open>handle\<close> function), it is invoked at once on exactly that value; if this
  was the last task and the promise of the activation is still pending, that promise
  comes to what an \<open>async\<close> function returning that value comes to: it is fulfilled
  with exactly that value, unless the value is a promise, which is adopted. Conversely,
  in every run, whatever the tasks do, a task is only ever invoked directly behind a
  continuation call of its predecessor with a falsy error, on exactly the value that
  call hands on. And a run that keeps to the protocol is the run \<open>sequential_run\<close>
  describes, in which each task receives what its predecessor handed on and the
  result is what the last task handed on.
\<close>

theorem next_fn_threads_payload:
  assumes "\<not> truthy err" and "int (index + 1) \<noteq> currentIndex \<sigma>"
  shows "(index + 1 < length ts \<and> dispatch (ts ! (index + 1)) = Some (mode, beh) \<longrightarrow>
            prefix (trace \<sigma> @ [NextCalled index data err nextData,
                      Invoked (index + 1) mode (if nextData \<noteq> VUndefined then nextData else data)])
                   (trace (next_fn ts index data p (err, nextData) \<sigma>)))
       \<and> (length ts \<le> index + 1 \<and> p < length (promises \<sigma>) \<and> act_state (promises \<sigma> ! p) = Pending \<longrightarrow>
            fate (promises (next_fn ts index data p (err, nextData) \<sigma>)) p
              = Some (adopt (if nextData \<noteq> VUndefined then nextData else data))
            \<and> (\<not> is_promise (if nextData \<noteq> VUndefined then nextData else data) \<longrightarrow>
                 fate (promises (next_fn ts index data p (err, nextData) \<sigma>)) p
                   = Some (Fulfilled (if nextData \<noteq> VUndefined then nextData else data)))
            \<and> trace (next_fn ts index data p (err, nextData) \<sigma>)
              = trace \<sigma> @ [NextCalled index data err nextData])
       \<and> threads (trace (snd (execute_then this d later)))
       \<and> (sequential_run (tasks this) 0 d later = Some (evs, en) \<longrightarrow>
            trace (snd (execute_then this d later)) = evs
            \<and> outcome (execute_then this d later) = result_of en)"
proof -
  let ?\<sigma>0 = "log (NextCalled index data err nextData) \<sigma>"
  let ?d = "if nextData \<noteq> VUndefined then nextData else data"
  have g: "int (index + 1) \<noteq> currentIndex ?\<sigma>0" using assms(2) by simp
  have c1: "index + 1 < length ts \<and> dispatch (ts ! (index + 1)) = Some (mode, beh) \<longrightarrow>
            prefix (trace \<sigma> @ [NextCalled index data err nextData, Invoked (index + 1) mode ?d])
                   (trace (next_fn ts index data p (err, nextData) \<sigma>))"
  proof
    assume a: "index + 1 < length ts \<and> dispatch (ts ! (index + 1)) = Some (mode, beh)"
    have "prefix (trace ?\<sigma>0 @ [Invoked (index + 1) mode ?d])
            (trace (snd (runner ts (index + 1) ?d ?\<sigma>0)))"
      unfolding runner_invokes [OF g conjunct1 [OF a] conjunct2 [OF a]]
      using invoke_trace [of "new_promise (index + 1) ?d (?\<sigma>0\<lparr>currentIndex := int (index + 1)\<rparr>)"]
      by simp
    then show "prefix (trace \<sigma> @ [NextCalled index data err nextData, Invoked (index + 1) mode ?d])
                   (trace (next_fn ts index data p (err, nextData) \<sigma>))"
      using assms(1) unfolding next_fn_unfold [of ts index data p err nextData \<sigma>]
      by (simp add: resolve_def)
  qed
  have c2: "length ts \<le> index + 1 \<and> p < length (promises \<sigma>) \<and> act_state (promises \<sigma> ! p) = Pending \<longrightarrow>
            fate (promises (next_fn ts index data p (err, nextData) \<sigma>)) p = Some (adopt ?d)
            \<and> (\<not> is_promise ?d \<longrightarrow>
                 fate (promises (next_fn ts index data p (err, nextData) \<sigma>)) p = Some (Fulfilled ?d))
            \<and> trace (next_fn ts index data p (err, nextData) \<sigma>)
              = trace \<sigma> @ [NextCalled index data err nextData]"
  proof
    assume a: "length ts \<le> index + 1 \<and> p < length (promises \<sigma>) \<and> act_state (promises \<sigma> ! p) = Pending"
    have n: "next_fn ts index data p (err, nextData) \<sigma>
               = settle p (Now (adopt ?d)) (?\<sigma>0\<lparr>currentIndex := int (index + 1)\<rparr>)"
      using assms(1) unfolding next_fn_unfold [of ts index data p err nextData \<sigma>]
        runner_past_end [OF g conjunct1 [OF a]]
      by (simp add: resolve_def)
    have f: "fate (promises (next_fn ts index data p (err, nextData) \<sigma>)) p = Some (adopt ?d)"
      unfolding n using a by (simp add: settle_def fate.simps [of _ p])
    have t: "trace (next_fn ts index data p (err, nextData) \<sigma>) = trace \<sigma> @ [NextCalled index data err nextData]"
      unfolding n by simp
    show "fate (promises (next_fn ts index data p (err, nextData) \<sigma>)) p = Some (adopt ?d)
            \<and> (\<not> is_promise ?d \<longrightarrow>
                 fate (promises (next_fn ts index data p (err, nextData) \<sigma>)) p = Some (Fulfilled ?d))
            \<and> trace (next_fn ts index data p (err, nextData) \<sigma>)
              = trace \<sigma> @ [NextCalled index data err nextData]"
      using f t adopt_plain [of ?d] by simp
  qed
  have c3: "threads (trace (snd (execute_then this d later)))"
    by (rule threads_execute_then)
  have c4: "sequential_run (tasks this) 0 d later = Some (evs, en) \<longrightarrow>
            trace (snd (execute_then this d later)) = evs
            \<and> outcome (execute_then this d later) = result_of en"
    using engine_runs_sequentially(1,2) [of this d later evs en] by simp
  show ?thesis
    by (rule conjI [OF c1 conjI [OF c2 conjI [OF c3 c4]]])
qed

theorem next_fn_threads_payload_witness:
  "prefix [Invoked 0 Plainly (VNum 1), NextCalled 0 (VNum 1) VNull (VNum 0), Invoked 1 Plainly (VNum 0)]
     (trace (next_fn [task_next_once, task_next_once] 0 (VNum 1) 0 (VNull, VNum 0)
        \<lparr>currentIndex = 0,
           promises = [\<lparr>act_index = 0, act_data = VNum 1, act_state = Pending\<rparr>],
           trace = [Invoked 0 Plainly (VNum 1)]\<rparr>))
   \<and> fate (promises (next_fn [task_next_once] 0 (VNum 1) 0 (VNull, VStr [])
        \<lparr>currentIndex = 0,
           promises = [\<lparr>act_index = 0, act_data = VNum 1, act_state = Pending\<rparr>],
           trace = [Invoked 0 Plainly (VNum 1)]\<rparr>)) 0
     = Some (Fulfilled (VStr []))
   \<and> fate (promises (next_fn [task_next_once] 0 (VNum 1) 0 (VNull, VUndefined)
        \<lparr>currentIndex = 0,
           promises = [\<lparr>act_index = 0, act_data = VNum 1, act_state = Pending\<rparr>],
           trace = [Invoked 0 Plainly (VNum 1)]\<rparr>)) 0
     = Some (Fulfilled (VNum 1))
   \<and> threads (trace (snd (execute_then \<lparr>tasks = [task_deferring, task_set_two, task_next_once]\<rparr>
        (VObject [(''n'', VNum 1)]) [(0, VNull, VBool False)])))
   \<and> trace (snd (execute_then \<lparr>tasks = [task_deferring, task_set_two, task_next_once]\<rparr>
        (VObject [(''n'', VNum 1)]) [(0, VNull, VBool False)]))
     = [Invoked 0 Plainly (VObject [(''n'', VNum 1)]),
        NextCalled 0 (VObject [(''n'', VNum 1)]) VNull (VBool False),
        Invoked 1 Plainly (VBool False),
        NextCalled 1 (VBool False) VNull (VObject [(''n'', VNum 2)]),
        Invoked 2 Plainly (VObject [(''n'', VNum 2)]),
        NextCalled 2 (VObject [(''n'', VNum 2)]) VUndefined VUndefined]
   \<and> outcome (execute_then \<lparr>tasks = [task_deferring, task_set_two, task_next_once]\<rparr>
        (VObject [(''n'', VNum 1)]) [(0, VNull, VBool False)])
     = Some (Fulfilled (VObject [(''n'', VNum 2)]))"
  using
    next_fn_threads_payload [where err = VNull and index = 0 and nextData = "VNum 0"
      and data = "VNum 1" and p = 0 and ts = "[task_next_once, task_next_once]"
      and mode = Plainly
      and beh = "\<lambda>data. ([(VUndefined, VUndefined)], Return VUndefined)"
      and \<sigma> = "\<lparr>currentIndex = 0,
           promises = [\<lparr>act_index = 0, act_data = VNum 1, act_state = Pending\<rparr>],
           trace = [Invoked 0 Plainly (VNum 1)]\<rparr>"
      and this = "\<lparr>tasks = [task_deferring, task_set_two, task_next_once]\<rparr>"
      and d = "VObject [(''n'', VNum 1)]" and later = "[(0, VNull, VBool False)]"
      and evs = "[Invoked 0 Plainly (VObject [(''n'', VNum 1)]),
        NextCalled 0 (VObject [(''n'', VNum 1)]) VNull (VBool False),
        Invoked 1 Plainly (VBool False),
        NextCalled 1 (VBool False) VNull (VObject [(''n'', VNum 2)]),
        Invoked 2 Plainly (VObject [(''n'', VNum 2)]),
        NextCalled 2 (VObject [(''n'', VNum 2)]) VUndefined VUndefined]"
      and en = "Completed (Fulfilled (VObject [(''n'', VNum 2)]))"]
    next_fn_threads_payload [where err = VNull and index = 0 and nextData = "VStr []"
      and data = "VNum 1" and p = 0 and ts = "[task_next_once]"
      and \<sigma> = "\<lparr>currentIndex = 0,
           promises = [\<lparr>act_index = 0, act_data = VNum 1, act_state = Pending\<rparr>],
           trace = [Invoked 0 Plainly (VNum 1)]\<rparr>"
      and this = new_pipeline and d = VNull and later = "[]" and evs = "[]"
      and en = "Completed (Fulfilled VNull)"]
    next_fn_threads_payload [where err = VNull and index = 0 and nextData = VUndefined
      and data = "VNum 1" and p = 0 and ts = "[task_next_once]"
      and \<sigma> = "\<lparr>currentIndex = 0,
           promises = [\<lparr>act_index = 0, act_data = VNum 1, act_state = Pending\<rparr>],
           trace = [Invoked 0 Plainly (VNum 1)]\<rparr>"
      and this = new_pipeline and d = VNull and later = "[]" and evs = "[]"
      and en = "Completed (Fulfilled VNull)"]
  by (simp add: task_next_once_def task_deferring_def task_set_two_def class_source_def new_pipeline_def)


section \<open>The guard against a second continuation call\<close>

text \<open>
  C1 asks that a second call of a task's continuation within one activation make
  \<open>execute\<close> reject with the protocol-violation error and invoke no further task.
  The engine does neither. With the single task \<open>(data, next) => { next(); next(); }\<close>
  the second call does reach the guard of \<open>runner\<close>, but the rejected promise it
  produces is handed to \<open>resolve\<close> of a promise that the first call has already
  resolved, and \<open>execute\<close> comes to what the payload gives (it is fulfilled with the
  payload, unless the payload is itself a promise). With a second task behind it that
  continues at once, the cursor has moved on when the second call arrives, the guard
  does not fire and the second task is invoked a second time.
\<close>

theorem double_next_goes_unreported:
  "outcome (execute \<lparr>tasks = [task_next_twice]\<rparr> d) = Some (adopt d)
   \<and> outcome (execute \<lparr>tasks = [task_next_twice]\<rparr> (VNum 1)) = Some (Fulfilled (VNum 1))
   \<and> trace (snd (execute \<lparr>tasks = [task_next_twice]\<rparr> d))
     = [Invoked 0 Plainly d, NextCalled 0 d VUndefined VUndefined, NextCalled 0 d VUndefined VUndefined]
   \<and> outcome (execute \<lparr>tasks = [task_next_twice, task_next_once]\<rparr> d) = Some (adopt d)
   \<and> outcome (execute \<lparr>tasks = [task_next_twice, task_next_once]\<rparr> (VNum 1)) = Some (Fulfilled (VNum 1))
   \<and> trace (snd (execute \<lparr>tasks = [task_next_twice, task_next_once]\<rparr> d))
     = [Invoked 0 Plainly d, NextCalled 0 d VUndefined VUndefined,
        Invoked 1 Plainly d, NextCalled 1 d VUndefined VUndefined,
        NextCalled 0 d VUndefined VUndefined,
        Invoked 1 Plainly d, NextCalled 1 d VUndefined VUndefined]"
  by (simp add: outcome_def execute_def initial_state_def task_next_twice_def task_next_once_def
      runner.simps next_fn.simps class_source_def log_def resolve_def reject_def settle_def
      new_promise_def multiple_next_error_def fate.simps Let_def)

section \<open>Exceptions raised after the invocation\<close>

text \<open>
  C10: an exception raised after the synchronous part of a task, that is a rejection
  of the promise the task returns, never reaches \<open>execute\<close>. The engine drops what
  a task returns: replacing every returned value by \<open>undefined\<close> changes nothing in
  a run, whatever continuation calls follow later, so the outcome depends on the
  continuation calls and the synchronous throws alone. In particular, when the first
  task returns a rejected promise without having called its continuation, the promise
  of \<open>execute\<close> is not rejected: it stays pending.
\<close>

theorem asynchronous_rejection_ignored:
  "execute_then \<lparr>tasks = map (map_task forget_return) ts\<rparr> d later
     = execute_then \<lparr>tasks = ts\<rparr> d later
   \<and> outcome (execute \<lparr>tasks = FuncVal src (\<lambda>mode data. ([], Return (VRejectedPromise e))) # ts\<rparr> d) = None"
proof -
  have "fire (map (map_task forget_return) ts) = fire ts"
    by (intro ext) (rule fire_returns_ignored)
  then have a: "execute_then \<lparr>tasks = map (map_task forget_return) ts\<rparr> d later
     = execute_then \<lparr>tasks = ts\<rparr> d later"
    by (simp add: execute_then_def execute_def returns_ignored)
  have b: "outcome (execute \<lparr>tasks = FuncVal src (\<lambda>mode data. ([], Return (VRejectedPromise e))) # ts\<rparr> d) = None"
    by (simp add: execute_def initial_state_def runner_unfold attempt_def invoke_def outcome_def
        fate.simps [of _ 0])
  show ?thesis using a b by simp
qed


section \<open>Short-circuit on error\<close>

text \<open>
  C4 says that whenever a continuation of \<open>T\<^sub>i\<close> is called with a truthy error
  \<open>e\<close>, \<open>execute\<close> fails with \<open>e\<close> and no later task is invoked. With the task
  \<open>(data, next) => { next(); next(bad); next(); }\<close> in front of a task that continues
  at once, the continuation of task 0 is called with the error \<open>bad\<close>, yet
  \<open>execute\<close> is fulfilled with the payload, and task 1 is invoked once more after
  that call. And behind a first task that calls its continuation twice, a task that
  continues at once and a task that defers, the last task calls its continuation once,
  with \<open>bad\<close>; when the second activation of the deferring task continues before
  the first one, \<open>execute\<close> rejects with the error of the guard, not with \<open>bad\<close>.
\<close>

theorem error_call_after_continue_counterexample:
  "outcome (execute \<lparr>tasks = [task_continue_fail_continue, task_next_once]\<rparr> (VNum 1))
     = Some (Fulfilled (VNum 1))
   \<and> trace (snd (execute \<lparr>tasks = [task_continue_fail_continue, task_next_once]\<rparr> (VNum 1)))
     = [Invoked 0 Plainly (VNum 1), NextCalled 0 (VNum 1) VUndefined VUndefined,
        Invoked 1 Plainly (VNum 1), NextCalled 1 (VNum 1) VUndefined VUndefined,
        NextCalled 0 (VNum 1) (VError ''Error'' ''bad'') VUndefined,
        NextCalled 0 (VNum 1) VUndefined VUndefined,
        Invoked 1 Plainly (VNum 1), NextCalled 1 (VNum 1) VUndefined VUndefined]
   \<and> outcome (execute_then \<lparr>tasks = [task_next_twice, task_next_once, task_deferring, task_fail_bad]\<rparr>
        (VNum 1) [(4, VNull, VUndefined), (2, VNull, VUndefined)])
     = Some (Rejected multiple_next_error)
   \<and> trace (snd (execute_then \<lparr>tasks = [task_next_twice, task_next_once, task_deferring, task_fail_bad]\<rparr>
        (VNum 1) [(4, VNull, VUndefined), (2, VNull, VUndefined)]))
     = [Invoked 0 Plainly (VNum 1), NextCalled 0 (VNum 1) VUndefined VUndefined,
        Invoked 1 Plainly (VNum 1), NextCalled 1 (VNum 1) VUndefined VUndefined,
        Invoked 2 Plainly (VNum 1), NextCalled 0 (VNum 1) VUndefined VUndefined,
        Invoked 1 Plainly (VNum 1), NextCalled 1 (VNum 1) VUndefined VUndefined,
        Invoked 2 Plainly (VNum 1), NextCalled 2 (VNum 1) VNull VUndefined,
        Invoked 3 Plainly (VNum 1), NextCalled 3 (VNum 1) (VError ''Error'' ''bad'') VUndefined,
        NextCalled 2 (VNum 1) VNull VUndefined]"
  by (simp add: outcome_def execute_def execute_then_def fire_def initial_state_def
      task_continue_fail_continue_def task_next_once_def task_next_twice_def task_deferring_def
      task_fail_bad_def
      runner.simps next_fn.simps class_source_def log_def resolve_def reject_def settle_def
      new_promise_def multiple_next_error_def fate.simps Let_def)

text \<open>
  C4, amended. Take an execution that keeps to the protocol up to the error: each of
  \<open>T\<^sub>0 \<dots> T\<^sub>i\<^sub>-\<^sub>1\<close> calls its continuation exactly once, during its invocation or
  later, with a falsy error and without having thrown before, and \<open>T\<^sub>i\<close> then calls
  its continuation, once, with the truthy error \<open>e\<close> (\<open>sequential_run\<close> ends with
  \<open>Failed i e\<close>). Then \<open>execute\<close> fails with exactly \<open>e\<close>; the tasks
  \<open>T\<^sub>0 \<dots> T\<^sub>i\<close> have been invoked once each, in order, and no task behind
  \<open>T\<^sub>i\<close>; and no continuation call made after that, by any task, changes the
  outcome of \<open>execute\<close>.
\<close>

theorem first_error_is_final:
  assumes "sequential_run (tasks this) 0 d later = Some (evs, Failed i e)"
  shows "truthy e \<and> i < length (tasks this)
       \<and> outcome (execute_then this d later) = Some (Rejected e)
       \<and> outcome (execute_then this d (later @ further)) = Some (Rejected e)
       \<and> trace (snd (execute_then this d later)) = evs
       \<and> map shape (trace (snd (execute_then this d later))) = in_order 0 i @ [Began i, Fired i]"
proof -
  have a: "truthy e" "i < length (tasks this)"
    using sequential_run_Failed [OF assms] by simp_all
  have o: "outcome (execute_then this d later) = Some (Rejected e)"
    using engine_runs_sequentially(2) [OF assms] by simp
  have f: "outcome (execute_then this d (later @ further)) = Some (Rejected e)"
    using o by (rule outcome_final)
  have t: "trace (snd (execute_then this d later)) = evs"
    by (rule engine_runs_sequentially(1) [OF assms])
  have "map shape evs = in_order 0 i @ [Began i, Fired i]"
    using sequential_run_shape [OF assms] by simp
  then show ?thesis using a o f t by simp
qed

theorem first_error_is_final_witness:
  "outcome (execute_then \<lparr>tasks = [task_deferring, task_fail_bad, task_next_once]\<rparr> (VNum 1)
      ([(0, VNull, VStr ''x'')] @ [(0, VNull, VUndefined), (1, VNull, VUndefined)]))
     = Some (Rejected (VError ''Error'' ''bad''))
   \<and> trace (snd (execute_then \<lparr>tasks = [task_deferring, task_fail_bad, task_next_once]\<rparr> (VNum 1)
      [(0, VNull, VStr ''x'')]))
     = [Invoked 0 Plainly (VNum 1), NextCalled 0 (VNum 1) VNull (VStr ''x''),
        Invoked 1 Plainly (VStr ''x''), NextCalled 1 (VStr ''x'') (VError ''Error'' ''bad'') VUndefined]
   \<and> map shape (trace (snd (execute_then \<lparr>tasks = [task_deferring, task_fail_bad, task_next_once]\<rparr>
      (VNum 1) [(0, VNull, VStr ''x'')])))
     = [Began 0, Fired 0, Began 1, Fired 1]"
  using first_error_is_final [where this = "\<lparr>tasks = [task_deferring, task_fail_bad, task_next_once]\<rparr>"
      and d = "VNum 1" and later = "[(0, VNull, VStr ''x'')]"
      and further = "[(0, VNull, VUndefined), (1, VNull, VUndefined)]"
      and i = 1 and e = "VError ''Error'' ''bad''"
      and evs = "[Invoked 0 Plainly (VNum 1), NextCalled 0 (VNum 1) VNull (VStr ''x''),
        Invoked 1 Plainly (VStr ''x''), NextCalled 1 (VStr ''x'') (VError ''Error'' ''bad'') VUndefined]"]
  by (simp add: task_deferring_def task_fail_bad_def task_next_once_def class_source_def
      in_order_def)

section \<open>Throw as failure\<close>

text \<open>
  C5 says that for every error value \<open>e\<close> a task that throws \<open>e\<close> and a task that
  calls \<open>next(e)\<close> instead give \<open>execute\<close> the same outcome. For the value \<open>0\<close>
  they do not: \<open>throw 0\<close> makes \<open>execute\<close> reject with \<open>0\<close>, while \<open>next(0)\<close> is a
  call that continues, and \<open>execute\<close> is fulfilled with the payload.
\<close>

theorem throw_falsy_counterexample:
  "outcome (execute \<lparr>tasks = [task_throw_zero]\<rparr> (VNum 1)) = Some (Rejected (VNum 0))
   \<and> outcome (execute \<lparr>tasks = [task_next_zero]\<rparr> (VNum 1)) = Some (Fulfilled (VNum 1))"
  by (simp add: outcome_def execute_def initial_state_def task_throw_zero_def task_next_zero_def
      runner.simps next_fn.simps class_source_def log_def resolve_def reject_def settle_def
      new_promise_def multiple_next_error_def fate.simps Let_def)

text \<open>
  C5, amended: for every error value \<open>e\<close> that the continuation takes for an error,
  that is every truthy \<open>e\<close> (as every error object is). \<open>map_task throw_to_next t\<close>
  is the task that calls \<open>next(e)\<close> and returns wherever \<open>t\<close> throws a truthy
  \<open>e\<close>. Replacing the task at any position \<open>k\<close> of any pipeline by it never changes
  the outcome of \<open>execute\<close>, whatever the other tasks do and whatever continuation
  calls follow later. And in an execution that keeps to the protocol up to task \<open>i\<close>
  (\<open>T\<^sub>0 \<dots> T\<^sub>i\<^sub>-\<^sub>1\<close> each continue once, during their invocation or later), a task
  \<open>T\<^sub>i\<close> that throws \<open>e\<close> makes \<open>execute\<close> reject with exactly \<open>e\<close>, and so does
  the task that calls \<open>next(e)\<close> in its place; no later continuation call changes
  that.
\<close>

theorem throw_is_continuation_error:
  "outcome (execute_then \<lparr>tasks = ts[k := map_task throw_to_next (ts ! k)]\<rparr> d later)
     = outcome (execute_then \<lparr>tasks = ts\<rparr> d later)
   \<and> (sequential_run ts 0 d later = Some (evs, Threw i e) \<longrightarrow>
        outcome (execute_then \<lparr>tasks = ts\<rparr> d (later @ further)) = Some (Rejected e)
        \<and> outcome (execute_then \<lparr>tasks = ts[i := map_task throw_to_next (ts ! i)]\<rparr> d (later @ further))
            = Some (Rejected e))"
proof -
  have eq: "outcome (execute_then \<lparr>tasks = ts[k := map_task throw_to_next (ts ! k)]\<rparr> d later)
     = outcome (execute_then \<lparr>tasks = ts\<rparr> d later)" for k later
  proof -
    let ?ts' = "ts[k := map_task throw_to_next (ts ! k)]"
    have len: "length ?ts' = length ts" by simp
    have rel: "\<forall>i<length ts. ?ts' ! i = ts ! i \<or> ?ts' ! i = map_task throw_to_next (ts ! i)"
      by (metis nth_list_update_eq nth_list_update_neq)
    have r0: "fst (runner ?ts' 0 d initial_state) = fst (runner ts 0 d initial_state)"
      and c0: "core (snd (runner ?ts' 0 d initial_state)) = core (snd (runner ts 0 d initial_state))"
      using throw_as_next_sim(1) [OF len rel refl, of 0 d initial_state] by simp_all
    have "core (fold (fire ?ts') later (snd (runner ?ts' 0 d initial_state)))
        = core (fold (fire ts) later (snd (runner ts 0 d initial_state)))"
      by (rule core_fold [OF core_fire [OF len rel] c0])
    then have "outcome (fst (runner ts 0 d initial_state),
                   fold (fire ?ts') later (snd (runner ?ts' 0 d initial_state)))
        = outcome (fst (runner ts 0 d initial_state),
                   fold (fire ts) later (snd (runner ts 0 d initial_state)))"
      by (rule outcome_core)
    then show ?thesis
      by (simp add: execute_then_def execute_def r0)
  qed
  have th: "sequential_run ts 0 d later = Some (evs, Threw i e) \<longrightarrow>
        outcome (execute_then \<lparr>tasks = ts\<rparr> d (later @ further)) = Some (Rejected e)
        \<and> outcome (execute_then \<lparr>tasks = ts[i := map_task throw_to_next (ts ! i)]\<rparr> d (later @ further))
            = Some (Rejected e)"
  proof
    assume sq: "sequential_run ts 0 d later = Some (evs, Threw i e)"
    have "outcome (execute_then \<lparr>tasks = ts\<rparr> d later) = Some (Rejected e)"
      using engine_runs_sequentially(2) [of "\<lparr>tasks = ts\<rparr>" d later evs "Threw i e"] sq by simp
    then have "outcome (execute_then \<lparr>tasks = ts\<rparr> d (later @ further)) = Some (Rejected e)"
      by (rule outcome_final)
    then show "outcome (execute_then \<lparr>tasks = ts\<rparr> d (later @ further)) = Some (Rejected e)
        \<and> outcome (execute_then \<lparr>tasks = ts[i := map_task throw_to_next (ts ! i)]\<rparr> d (later @ further))
            = Some (Rejected e)"
      using eq [of i "later @ further"] by simp
  qed
  show ?thesis by (rule conjI [OF eq th])
qed

theorem throw_is_continuation_error_witness:
  "outcome (execute_then
       \<lparr>tasks = [task_deferring, task_next_once, map_task throw_to_next task_throw_bad]\<rparr> (VNum 1)
       ([(0, VNull, VUndefined)] @ [(1, VNull, VUndefined)]))
     = Some (Rejected (VError ''Error'' ''bad''))
   \<and> outcome (execute_then \<lparr>tasks = [task_deferring, task_next_once, task_throw_bad]\<rparr> (VNum 1)
       ([(0, VNull, VUndefined)] @ [(1, VNull, VUndefined)]))
     = Some (Rejected (VError ''Error'' ''bad''))"
  using throw_is_continuation_error [where ts = "[task_deferring, task_next_once, task_throw_bad]"
      and k = 2 and i = 2 and d = "VNum 1" and later = "[(0, VNull, VUndefined)]"
      and further = "[(1, VNull, VUndefined)]" and e = "VError ''Error'' ''bad''"
      and evs = "[Invoked 0 Plainly (VNum 1), NextCalled 0 (VNum 1) VNull VUndefined,
        Invoked 1 Plainly (VNum 1), NextCalled 1 (VNum 1) VUndefined VUndefined,
        Invoked 2 Plainly (VNum 1)]"]
  by (simp add: task_deferring_def task_next_once_def task_throw_bad_def task_fail_bad_def
      class_source_def)

section \<open>Order of execution\<close>

text \<open>
  C8 asks that the tasks be activated in registration order under every condition. The
  tasks \<open>(data, next) => { next(); next(); }\<close>, \<open>(data, next) => { next(); }\<close> and
  \<open>(data, next) => { next(); }\<close> all continue successfully, and the engine activates
  them in the order 0, 1, 2, 1, 2: when the first task calls its continuation a second
  time, the cursor is past the index the guard of \<open>runner\<close> compares with, the guard
  does not fire, and the tasks behind the first one run again.
\<close>

theorem double_next_reruns_tasks:
  "trace (snd (execute \<lparr>tasks = [task_next_twice, task_next_once, task_next_once]\<rparr> d))
     = [Invoked 0 Plainly d, NextCalled 0 d VUndefined VUndefined,
        Invoked 1 Plainly d, NextCalled 1 d VUndefined VUndefined,
        Invoked 2 Plainly d, NextCalled 2 d VUndefined VUndefined,
        NextCalled 0 d VUndefined VUndefined,
        Invoked 1 Plainly d, NextCalled 1 d VUndefined VUndefined,
        Invoked 2 Plainly d, NextCalled 2 d VUndefined VUndefined]
   \<and> map shape (trace (snd (execute \<lparr>tasks = [task_next_twice, task_next_once, task_next_once]\<rparr> d)))
     = [Began 0, Fired 0, Began 1, Fired 1, Began 2, Fired 2, Fired 0, Began 1, Fired 1, Began 2, Fired 2]
   \<and> outcome (execute \<lparr>tasks = [task_next_twice, task_next_once, task_next_once]\<rparr> d) = Some (adopt d)"
  by (simp add: outcome_def execute_def initial_state_def task_next_twice_def task_next_once_def
      runner.simps next_fn.simps class_source_def log_def resolve_def reject_def settle_def
      new_promise_def multiple_next_error_def fate.simps Let_def)

section \<open>Runs that keep to the protocol are sequential\<close>

lemma runs_in_registration_order:
  assumes "sequential_run (tasks this) 0 d later = Some (evs, en)"
  shows "map shape (trace (snd (execute_then this d later)))
           = in_order 0 (position (length (tasks this)) en) @ closing en"
    and "outcome (execute_then this d later) = result_of en"
  using engine_runs_sequentially(1,2) [OF assms] sequential_run_shape [OF assms] by simp_all

end
